theory Spec2Isabelle
  imports Complex_Main "HOL-Library.Sublist" "HOL-Library.Extended_Nat"
begin

section \<open>Strings\<close>

text \<open>
  A JavaScript string is a sequence of UTF-16 code units. The normalizer and the regular
  expressions of \<^verbatim>\<open>server/index.js\<close> distinguish code units above 255 (U+202F, U+2007,
  U+2028, ...), so a code unit is modelled by its numeric value and a string by the list
  of its code units.
\<close>

type_synonym jschar = nat

type_synonym jsstring = "nat list"

definition str :: "string \<Rightarrow> jsstring" where
  "str cs = map of_char cs"

text \<open>The class \<^verbatim>\<open>\d\<close>: the ASCII digits.\<close>

definition is_digit :: "jschar \<Rightarrow> bool" where
  "is_digit c = (48 \<le> c \<and> c \<le> 57)"

text \<open>LineTerminator of ECMAScript: LF, CR, U+2028, U+2029. The atom \<^verbatim>\<open>.\<close> matches
  everything else.\<close>

definition is_lt :: "jschar \<Rightarrow> bool" where
  "is_lt c = (c = 10 \<or> c = 13 \<or> c = 8232 \<or> c = 8233)"

text \<open>The class \<^verbatim>\<open>\s\<close>, which is also what \<^verbatim>\<open>String.prototype.trim\<close> strips:
  WhiteSpace (TAB, VT, FF, SP, NBSP, U+FEFF and the category Zs) and LineTerminator.\<close>

definition is_ws :: "jschar \<Rightarrow> bool" where
  "is_ws c = (c = 9 \<or> c = 10 \<or> c = 11 \<or> c = 12 \<or> c = 13 \<or> c = 32 \<or> c = 160 \<or> c = 5760
      \<or> (8192 \<le> c \<and> c \<le> 8202) \<or> c = 8232 \<or> c = 8233 \<or> c = 8239 \<or> c = 8287
      \<or> c = 12288 \<or> c = 65279)"

text \<open>The class \<^verbatim>\<open>[ \t]\<close>.\<close>

definition is_blank :: "jschar \<Rightarrow> bool" where
  "is_blank c = (c = 32 \<or> c = 9)"

section \<open>The text normalizer\<close>

text \<open>\<^verbatim>\<open>s.replace(/[ \t]+/g, " ")\<close>: every maximal run of spaces and tabs becomes one space.\<close>

function collapse :: "jsstring \<Rightarrow> jsstring" where
  "collapse [] = []"
| "collapse (c # cs) =
     (if is_blank c then 32 # collapse (dropWhile is_blank cs) else c # collapse cs)"
  by pat_completeness auto

termination
  by (relation "measure length") (auto simp: le_imp_less_Suc length_dropWhile_le)

text \<open>\<^verbatim>\<open>s.trim()\<close>.\<close>

definition trim :: "jsstring \<Rightarrow> jsstring" where
  "trim s = rev (dropWhile is_ws (rev (dropWhile is_ws s)))"

text \<open>\<^verbatim>\<open>s.replace(/c/g, " ")\<close> for a single code unit \<open>c\<close>.\<close>

definition to_space :: "jschar \<Rightarrow> jsstring \<Rightarrow> jsstring" where
  "to_space c s = map (\<lambda>x. if x = c then 32 else x) s"

text \<open>
  \<^verbatim>\<open>
  function norm(s) {
    return (s || "")
      .replace(/\r/g, "")
      .replace(/\u00A0/g, " ")
      .replace(/\u202F/g, " ")
      .replace(/\u2007/g, " ")
      .replace(/[ \t]+/g, " ")
      .trim();
  }
  \<close>
  An undefined or empty argument is the empty list.
\<close>

definition norm :: "jsstring \<Rightarrow> jsstring" where
  "norm s = trim (collapse (to_space 8199 (to_space 8239 (to_space 160 (filter (\<lambda>c. c \<noteq> 13) s)))))"

text \<open>
  The shape of a normalizer result: no carriage return, none of the three Unicode spaces it
  replaces, no tab, no two adjacent spaces, and no white space at either end.
\<close>

fun squeezed :: "jsstring \<Rightarrow> bool" where
  "squeezed [] = True"
| "squeezed [c] = (c \<noteq> 9)"
| "squeezed (c # d # r) = (c \<noteq> 9 \<and> \<not> (c = 32 \<and> d = 32) \<and> squeezed (d # r))"

definition normalized :: "jsstring \<Rightarrow> bool" where
  "normalized s = (13 \<notin> set s \<and> 160 \<notin> set s \<and> 8239 \<notin> set s \<and> 8199 \<notin> set s \<and> squeezed s
     \<and> (s \<noteq> [] \<longrightarrow> \<not> is_ws (hd s) \<and> \<not> is_ws (last s)))"

section \<open>Numbers\<close>

text \<open>
  A round number is a JavaScript number: an IEEE double. The parser produces it by
  \<^verbatim>\<open>Number(m[1])\<close> from a run of decimal digits, or as an array index plus one, so it is
  a natural number that a double holds, or \<^verbatim>\<open>Infinity\<close>. It is modelled by an extended
  natural number.
\<close>

text \<open>The decimal digits of a natural number.\<close>

fun decimal :: "nat \<Rightarrow> jsstring" where
  "decimal n = (if n < 10 then [48 + n] else decimal (n div 10) @ [48 + n mod 10])"

text \<open>The number of binary digits.\<close>

fun bitlen :: "nat \<Rightarrow> nat" where
  "bitlen n = (if n = 0 then 0 else Suc (bitlen (n div 2)))"

text \<open>
  The double nearest to a natural number, ties to the even significand: every natural
  number below \<open>2^53\<close> is a double; a larger one keeps its leading 53 binary digits,
  rounded. A result of \<open>2^1024\<close> or more is no finite double (\<open>None\<close>).
\<close>

definition roundDouble :: "nat \<Rightarrow> nat option" where
  "roundDouble n =
     (if n < 2 ^ 53 then Some n
      else let e = bitlen n - 53; q = n div 2 ^ e; r = n mod 2 ^ e;
               q' = (if 2 * r > 2 ^ e \<or> (2 * r = 2 ^ e \<and> odd q) then q + 1 else q);
               v = q' * 2 ^ e
           in if v < 2 ^ 1024 then Some v else None)"

text \<open>
  \<^verbatim>\<open>Number(m[1])\<close> on a captured run of decimal digits (leading zeros allowed): the
  double nearest to the value of the digits, \<^verbatim>\<open>Infinity\<close> when that is out of range. (The
  language standard lets an implementation look at the first 20 significant digits only;
  V8, on which the server runs, rounds the exact value.)
\<close>

definition Number :: "jsstring \<Rightarrow> enat" where
  "Number ds = (case roundDouble (foldl (\<lambda>a c. 10 * a + (c - 48)) 0 ds) of
                  Some v \<Rightarrow> enat v | None \<Rightarrow> \<infinity>)"

text \<open>
  The text that a template literal \<^verbatim>\<open>`${num}`\<close> produces (\<^verbatim>\<open>Number::toString\<close>, radix
  10) for a double \<open>x\<close> that is a natural number: with \<open>k\<close> as small as possible, digits
  \<open>s\<close> (\<open>10^(k-1) \<le> s < 10^k\<close>) and an \<open>n\<close> such that \<open>x\<close> is the double nearest to
  \<open>s * 10^(n-k)\<close>; among several such \<open>s\<close> the one nearest to \<open>x\<close>, the even one on a
  tie. The text is the digits of \<open>s\<close> followed by \<open>n - k\<close> zeros when \<open>n \<le> 21\<close>, and the
  exponent notation \<^verbatim>\<open>d.ddde+E\<close> with \<open>E = n - 1\<close> otherwise. Below \<open>2^53\<close> these are the
  decimal digits of \<open>x\<close>. It is enough to try, for each \<open>k\<close>, the two values of \<open>n\<close> and
  of \<open>s\<close> next to \<open>x\<close> (when some digits round to \<open>x\<close>, the nearest ones do), and 17
  digits always suffice.
\<close>

definition dist :: "nat \<Rightarrow> nat \<Rightarrow> nat" where
  "dist a b = (if a \<le> b then b - a else a - b)"

definition candidates :: "nat \<Rightarrow> nat \<Rightarrow> (nat \<times> nat) list" where
  "candidates x k =
     [(s, n). n \<leftarrow> [length (decimal x), length (decimal x) + 1], k \<le> n,
              s \<leftarrow> [x div 10 ^ (n - k), x div 10 ^ (n - k) + 1],
              10 ^ (k - 1) \<le> s \<and> s < 10 ^ k \<and> roundDouble (s * 10 ^ (n - k)) = Some x]"

fun closest :: "nat \<Rightarrow> nat \<Rightarrow> (nat \<times> nat) list \<Rightarrow> (nat \<times> nat) option" where
  "closest x k [] = None"
| "closest x k ((s, n) # cs) =
     (case closest x k cs of
        None \<Rightarrow> Some (s, n)
      | Some (s', n') \<Rightarrow>
          let d = dist (s * 10 ^ (n - k)) x; d' = dist (s' * 10 ^ (n' - k)) x
          in if d < d' \<or> (d = d' \<and> even s) then Some (s, n) else Some (s', n'))"

fun shortest :: "nat \<Rightarrow> nat \<Rightarrow> nat \<Rightarrow> (nat \<times> nat \<times> nat) option" where
  "shortest x k 0 = None"
| "shortest x k (Suc fuel) =
     (case closest x k (candidates x k) of
        Some (s, n) \<Rightarrow> Some (k, s, n)
      | None \<Rightarrow> shortest x (Suc k) fuel)"

definition numToString :: "enat \<Rightarrow> jsstring" where
  "numToString x =
     (case x of
        \<infinity> \<Rightarrow> str ''Infinity''
      | enat v \<Rightarrow>
          if v < 2 ^ 53 then decimal v
          else (case shortest v 1 17 of
                  None \<Rightarrow> decimal v
                | Some (k, s, n) \<Rightarrow>
                    if n \<le> 21 then decimal s @ replicate (n - k) 48
                    else (case decimal s of
                            [] \<Rightarrow> []
                          | d # ds \<Rightarrow> (if ds = [] then [d] else d # 46 # ds)
                                       @ str ''e+'' @ decimal (n - 1))))"

text \<open>\<^verbatim>\<open>xs.join(sep)\<close>.\<close>

fun join :: "jsstring \<Rightarrow> jsstring list \<Rightarrow> jsstring" where
  "join sep [] = []"
| "join sep [x] = x"
| "join sep (x # y # r) = x @ sep @ join sep (y # r)"

section \<open>Regular expressions as backtracking matchers\<close>

text \<open>
  A piece of a regular expression is a function from the rest of the input to the list of
  the rests it can leave, in the order in which the backtracking matcher of ECMAScript
  tries them: a greedy quantifier offers the longest repetition first, a lazy one the
  shortest. A sequence of pieces is a list comprehension, and the match that
  \<^verbatim>\<open>exec\<close>, \<^verbatim>\<open>match\<close> and \<^verbatim>\<open>test\<close> report at a start index is the first success.
\<close>

definition first :: "'a list \<Rightarrow> 'a option" where
  "first xs = (case xs of [] \<Rightarrow> None | x # _ \<Rightarrow> Some x)"

text \<open>
  \<^verbatim>\<open>X*\<close>, \<^verbatim>\<open>X+\<close> and \<^verbatim>\<open>X+?\<close> for a character class \<open>X\<close>. Greedy: first
  consume one more code unit, then stop here. Lazy: first stop here, then consume one more.
\<close>

fun re_star :: "(jschar \<Rightarrow> bool) \<Rightarrow> jsstring \<Rightarrow> jsstring list" where
  "re_star P [] = [[]]"
| "re_star P (c # cs) = (if P c then re_star P cs @ [c # cs] else [c # cs])"

definition re_plus :: "(jschar \<Rightarrow> bool) \<Rightarrow> jsstring \<Rightarrow> jsstring list" where
  "re_plus P s = (case s of [] \<Rightarrow> [] | c # cs \<Rightarrow> if P c then re_star P cs else [])"

fun re_lazy_star :: "(jschar \<Rightarrow> bool) \<Rightarrow> jsstring \<Rightarrow> jsstring list" where
  "re_lazy_star P [] = [[]]"
| "re_lazy_star P (c # cs) = (c # cs) # (if P c then re_lazy_star P cs else [])"

definition re_lazy_plus :: "(jschar \<Rightarrow> bool) \<Rightarrow> jsstring \<Rightarrow> jsstring list" where
  "re_lazy_plus P s = (case s of [] \<Rightarrow> [] | c # cs \<Rightarrow> if P c then re_lazy_star P cs else [])"

text \<open>One literal code unit.\<close>

definition re_chr :: "jschar \<Rightarrow> jsstring \<Rightarrow> jsstring list" where
  "re_chr c s = (case s of [] \<Rightarrow> [] | x # r \<Rightarrow> if x = c then [r] else [])"

text \<open>
  A literal under the flag \<^verbatim>\<open>i\<close> without the flag \<^verbatim>\<open>u\<close>: two code units match when
  their canonical forms (\<^verbatim>\<open>toUpperCase\<close>, never mapping a code unit above 127 to one
  below 128) are equal. Against an ASCII pattern only the ASCII letters fold.
\<close>

definition canon :: "jschar \<Rightarrow> jschar" where
  "canon c = (if 97 \<le> c \<and> c \<le> 122 then c - 32 else c)"

fun re_lit_ci :: "jsstring \<Rightarrow> jsstring \<Rightarrow> jsstring list" where
  "re_lit_ci [] s = [s]"
| "re_lit_ci (p # ps) [] = []"
| "re_lit_ci (p # ps) (c # cs) = (if canon c = canon p then re_lit_ci ps cs else [])"

text \<open>An unanchored search tries the start indices \<open>0, 1, ..., length\<close> in turn.\<close>

fun re_search :: "(jsstring \<Rightarrow> 'a option) \<Rightarrow> jsstring \<Rightarrow> 'a option" where
  "re_search m [] = m []"
| "re_search m (c # cs) = (case m (c # cs) of Some r \<Rightarrow> Some r | None \<Rightarrow> re_search m cs)"

text \<open>\<^verbatim>\<open>/Result of Round #(\d+)/i\<close> at one start index: the captured digits.\<close>

definition headingAt :: "jsstring \<Rightarrow> jsstring option" where
  "headingAt s = first [take (length s1 - length s2) s1.
      s1 \<leftarrow> re_lit_ci (str ''Result of Round #'') s, s2 \<leftarrow> re_plus is_digit s1]"

text \<open>\<^verbatim>\<open>t.match(/Result of Round #(\d+)/i)\<close> (group 1 of the leftmost match) and
  \<^verbatim>\<open>/Result of Round #\d+/i.test(t)\<close>.\<close>

definition headingMatch :: "jsstring \<Rightarrow> jsstring option" where
  "headingMatch t = re_search headingAt t"

definition headingTest :: "jsstring \<Rightarrow> bool" where
  "headingTest t = (headingMatch t \<noteq> None)"

text \<open>\<^verbatim>\<open>/needle/i.test(t)\<close> for a literal needle.\<close>

definition containsCI :: "jsstring \<Rightarrow> jsstring \<Rightarrow> bool" where
  "containsCI needle t = (re_search (\<lambda>s. first (re_lit_ci needle s)) t \<noteq> None)"

text \<open>
  The tail \<^verbatim>\<open>\s*(.+?)\s*$\<close> shared by the three line patterns: the capture and the rest
  after the match. With the flag \<^verbatim>\<open>m\<close> the assertion \<^verbatim>\<open>$\<close> also holds before a line
  terminator. (Under the flag \<^verbatim>\<open>u\<close> the atom \<^verbatim>\<open>.\<close> consumes a whole code point; a
  capture that ended inside a surrogate pair would leave a low surrogate, which is not
  white space, so counting code units gives the same matches.)
\<close>

definition re_eol :: "bool \<Rightarrow> jsstring \<Rightarrow> bool" where
  "re_eol multiline s = (s = [] \<or> (multiline \<and> is_lt (hd s)))"

definition capTail :: "bool \<Rightarrow> jsstring \<Rightarrow> (jsstring \<times> jsstring) list" where
  "capTail multiline s = [(take (length s1 - length s2) s1, s3).
      s1 \<leftarrow> re_star is_ws s, s2 \<leftarrow> re_lazy_plus (\<lambda>c. \<not> is_lt c) s1,
      s3 \<leftarrow> re_star is_ws s2, re_eol multiline s3]"

text \<open>\<^verbatim>\<open>\s*\d+\.\<close>\<close>

definition numDot :: "jsstring \<Rightarrow> jsstring list" where
  "numDot s = [s3. s1 \<leftarrow> re_star is_ws s, s2 \<leftarrow> re_plus is_digit s1, s3 \<leftarrow> re_chr 46 s2]"

text \<open>
  \<^verbatim>\<open>line.match(/^\s*\d+\.\s*\d+\.\s*(.+?)\s*$/u)\<close> and
  \<^verbatim>\<open>line.match(/^\s*\d+\.\s*(.+?)\s*$/u)\<close>: group 1. Without the flag \<^verbatim>\<open>m\<close> the
  assertion \<^verbatim>\<open>^\<close> holds at index 0 only, so only that start index can match.
\<close>

definition reTwoNums :: "jsstring \<Rightarrow> jsstring option" where
  "reTwoNums s = first [cap. a \<leftarrow> numDot s, b \<leftarrow> numDot a, (cap, r) \<leftarrow> capTail False b]"

definition reOneNum :: "jsstring \<Rightarrow> jsstring option" where
  "reOneNum s = first [cap. a \<leftarrow> numDot s, (cap, r) \<leftarrow> capTail False a]"

text \<open>
  \<^verbatim>\<open>/^\s*\d+\.\s*\d+\.\s*(.+?)\s*$/gmu\<close> at a start index where \<^verbatim>\<open>^\<close> holds: group 1 and
  the rest after the match (which gives \<^verbatim>\<open>lastIndex\<close>).
\<close>

definition lineReAt :: "jsstring \<Rightarrow> (jsstring \<times> jsstring) option" where
  "lineReAt s = first [(cap, r). a \<leftarrow> numDot s, b \<leftarrow> numDot a, (cap, r) \<leftarrow> capTail True b]"

text \<open>
  \<^verbatim>\<open>/Result of Round #(\d+)(?:\s*\u2013\s*FINAL)?/gi\<close> at one start index (the dash is
  U+2013): group 1 and the rest after the match. The optional group is tried before it
  is skipped.
\<close>

definition headingReAt :: "jsstring \<Rightarrow> (jsstring \<times> jsstring) option" where
  "headingReAt s = first [(take (length s1 - length s2) s1, s3).
      s1 \<leftarrow> re_lit_ci (str ''Result of Round #'') s, s2 \<leftarrow> re_plus is_digit s1,
      s3 \<leftarrow> [s7. s4 \<leftarrow> re_star is_ws s2, s5 \<leftarrow> re_chr 8211 s4, s6 \<leftarrow> re_star is_ws s5,
                  s7 \<leftarrow> re_lit_ci (str ''FINAL'') s6] @ [s2]]"

section \<open>The name-list extractor (markup mode)\<close>

text \<open>
  \<^verbatim>\<open>
  const cleanName = (s) => {
    const v = norm(s);
    if (/^\d+$/.test(v)) return v;
    return v.replace(/^\d+\s+(?=\S)/, "").trim();
  };
  \<close>
  Both patterns are anchored at index 0. The replacement of the match by the empty string
  leaves the rest after the match.
\<close>

definition allDigits :: "jsstring \<Rightarrow> bool" where
  "allDigits v = (first [s1. s1 \<leftarrow> re_plus is_digit v, s1 = []] \<noteq> None)"

definition stripIndex :: "jsstring \<Rightarrow> jsstring" where
  "stripIndex v =
     (case first [s2. s1 \<leftarrow> re_plus is_digit v, s2 \<leftarrow> re_plus is_ws s1, s2 \<noteq> [] \<and> \<not> is_ws (hd s2)] of
        Some rest \<Rightarrow> rest
      | None \<Rightarrow> v)"

definition cleanName :: "jsstring \<Rightarrow> jsstring" where
  "cleanName s = (let v = norm s in if allDigits v then v else trim (stripIndex v))"

text \<open>
  The file holds an earlier copy of the server before this one; its extractor (line 100)
  cleans a name by
  \<^verbatim>\<open>const cleanName = (s) => norm(s).replace(/^\d+\s*/, "").trim();\<close>
  Both quantifiers are greedy and nothing follows them, so the match takes the whole run of
  digits and the whole run of white space after it.
\<close>

definition stripDigits :: "jsstring \<Rightarrow> jsstring" where
  "stripDigits v =
     (case first [s2. s1 \<leftarrow> re_plus is_digit v, s2 \<leftarrow> re_star is_ws s1] of
        Some rest \<Rightarrow> rest
      | None \<Rightarrow> v)"

definition cleanName_copy1 :: "jsstring \<Rightarrow> jsstring" where
  "cleanName_copy1 s = trim (stripDigits (norm s))"

text \<open>\<^verbatim>\<open>s.split("\n")\<close>\<close>

fun splitNL :: "jsstring \<Rightarrow> jsstring list" where
  "splitNL [] = [[]]"
| "splitNL (c # cs) =
     (if c = 10 then [] # splitNL cs
      else (case splitNL cs of [] \<Rightarrow> [[c]] | l # ls \<Rightarrow> (c # l) # ls))"

text \<open>
  The body of the loop over the lines of \<^verbatim>\<open>extractNamesFromChunk\<close>: the names one line
  contributes.
  \<^verbatim>\<open>
    let m = line.match(reTwoNums);
    if (m && m[1]) {
      const nm = cleanName(m[1]);
      if (nm) names.push(nm);
      continue;
    }
    m = line.match(reOneNum);
    if (m && m[1]) {
      const candidate = cleanName(m[1]);
      if (candidate && !/Result of Round/i.test(candidate) &&
          !/Round #/i.test(candidate) && !/Verification/i.test(candidate)) {
        names.push(candidate);
      }
    }
  \<close>
\<close>

definition oneNumNames :: "jsstring \<Rightarrow> jsstring list" where
  "oneNumNames line =
     (case reOneNum line of
        None \<Rightarrow> []
      | Some m1 \<Rightarrow>
          if m1 \<noteq> [] then
            (let candidate = cleanName m1 in
             if candidate \<noteq> [] \<and> \<not> containsCI (str ''Result of Round'') candidate
                \<and> \<not> containsCI (str ''Round #'') candidate
                \<and> \<not> containsCI (str ''Verification'') candidate
             then [candidate] else [])
          else [])"

definition lineNames :: "jsstring \<Rightarrow> jsstring list" where
  "lineNames line =
     (case reTwoNums line of
        None \<Rightarrow> oneNumNames line
      | Some m1 \<Rightarrow>
          if m1 \<noteq> [] then (let nm = cleanName m1 in if nm \<noteq> [] then [nm] else [])
          else oneNumNames line)"

text \<open>
  \<^verbatim>\<open>
  function extractNamesFromChunk(chunkText) {
    if (!chunkText) return [];
    const lines = chunkText.split("\n").map(norm).filter(Boolean);
    const names = [];
    for (const line of lines) { ... }
    return names;
  }
  \<close>
\<close>

definition extractNamesFromChunk :: "jsstring \<Rightarrow> jsstring list" where
  "extractNamesFromChunk chunkText =
     (if chunkText = [] then []
      else concat (map lineNames (filter (\<lambda>l. l \<noteq> []) (map norm (splitNL chunkText)))))"

section \<open>Rounds and errors\<close>

record round =
  round_no :: enat
  names :: "jsstring list"

text \<open>
  The three failures: \<^verbatim>\<open>"No rounds found. ..."\<close>,
  \<^verbatim>\<open>"Rounds detected but no participant lines parsed."\<close> and
  \<^verbatim>\<open>"bottomCount must be an integer >= 1"\<close>.
\<close>

datatype error = NoRoundsFound | NoNamesParsed | InvalidBottomCount

section \<open>Text mode\<close>

text \<open>
  \<^verbatim>\<open>
  const headingRe = /Result of Round #(\d+)(?:\s*\u2013\s*FINAL)?/gi;
  while ((m = headingRe.exec(text)) !== null) {
    headings.push({ round: Number(m[1]), index: m.index });
  }
  \<close>
  \<open>headingExec i s\<close> is the loop with \<^verbatim>\<open>lastIndex = i\<close> and \<open>s\<close> the text from there on.
\<close>

function headingExec :: "nat \<Rightarrow> jsstring \<Rightarrow> (enat \<times> nat) list" where
  "headingExec i s =
     (case headingReAt s of
        Some (ds, r) \<Rightarrow>
          (Number ds, i) # headingExec (i + (length s - length r)) r
      | None \<Rightarrow> (case s of [] \<Rightarrow> [] | c # cs \<Rightarrow> headingExec (Suc i) cs))"
  by pat_completeness auto

text \<open>
  \<^verbatim>\<open>
  const lineRe = /^\s*\d+\.\s*\d+\.\s*(.+?)\s*$/gmu;
  while ((lm = lineRe.exec(chunk)) !== null) {
    if (lm[1]) names.push(norm(lm[1]));
  }
  \<close>
  \<open>lineExec bol s\<close> is the loop with \<open>s\<close> the chunk from \<^verbatim>\<open>lastIndex\<close> on; \<open>bol\<close> says
  whether \<^verbatim>\<open>^\<close> holds there (index 0, or the code unit before is a line terminator).
\<close>

function lineExec :: "bool \<Rightarrow> jsstring \<Rightarrow> jsstring list" where
  "lineExec bol s =
     (case (if bol then lineReAt s else None) of
        Some (cap, r) \<Rightarrow>
          (if cap \<noteq> [] then [norm cap] else []) @
          lineExec (is_lt (s ! (length s - length r - 1))) r
      | None \<Rightarrow> (case s of [] \<Rightarrow> [] | c # cs \<Rightarrow> lineExec (is_lt c) cs))"
  by pat_completeness auto

text \<open>\<^verbatim>\<open>text.slice(start, end)\<close> for \<open>start \<le> end \<le> length\<close>.\<close>

definition slice :: "nat \<Rightarrow> nat \<Rightarrow> 'a list \<Rightarrow> 'a list" where
  "slice start end xs = take (end - start) (drop start xs)"

text \<open>
  The loop over the headings of \<^verbatim>\<open>parseFromTextFallback\<close>:
  \<^verbatim>\<open>
    const start = headings[i].index;
    const end = i + 1 < headings.length ? headings[i + 1].index : text.length;
    const chunk = norm(text.slice(start, end));
    ...
    if (names.length > 0) rounds.push({ round: headings[i].round, names });
  \<close>
\<close>

fun textRounds :: "jsstring \<Rightarrow> (enat \<times> nat) list \<Rightarrow> round list" where
  "textRounds text [] = []"
| "textRounds text ((rnd, start) # hs) =
     (let end = (case hs of [] \<Rightarrow> length text | (_, e) # _ \<Rightarrow> e);
          chunk = norm (slice start end text);
          nms = lineExec True chunk
      in (if nms \<noteq> [] then [\<lparr>round_no = rnd, names = nms\<rparr>] else []) @ textRounds text hs)"

text \<open>\<^verbatim>\<open>rounds.sort((a, b) => a.round - b.round)\<close>: a stable sort by round number.\<close>

definition sortRounds :: "round list \<Rightarrow> round list" where
  "sortRounds rounds = sort_key round_no rounds"

definition parseFromTextFallback :: "jsstring \<Rightarrow> error + round list" where
  "parseFromTextFallback text =
     (let headings = headingExec 0 text in
      if headings = [] then Inl NoRoundsFound
      else let rounds = textRounds text headings in
           if rounds = [] then Inl NoNamesParsed else Inr (sortRounds rounds))"

section \<open>Markup mode\<close>

text \<open>
  The HTML parser (\<^verbatim>\<open>cheerio.load\<close>) is a library; the model starts from the tree it
  returns. A document is the list of child nodes of its \<^verbatim>\<open>body\<close>, where the parser puts
  every element with one of the selected tag names. Tag names are in lower case, as the
  parser delivers them.
\<close>

datatype node = TextNode jsstring | Element string "node list"

type_synonym document = "node list"

text \<open>\<^verbatim>\<open>$(el).text()\<close>: the text of all descendants, in document order.\<close>

fun text_of :: "node \<Rightarrow> jsstring" where
  "text_of (TextNode t) = t"
| "text_of (Element tag children) = concat (map text_of children)"

fun is_element :: "node \<Rightarrow> bool" where
  "is_element (TextNode t) = False"
| "is_element (Element tag children) = True"

text \<open>
  Every element below a list of sibling nodes, in document order, each with the sibling
  elements that follow it: what \<^verbatim>\<open>$(el).next()\<close>, \<^verbatim>\<open>.next()\<close>, ... walks through
  (\<^verbatim>\<open>next\<close> skips text nodes).
\<close>

fun elements :: "node list \<Rightarrow> (node \<times> node list) list" where
  "elements [] = []"
| "elements (TextNode t # ns) = elements ns"
| "elements (Element tag children # ns) =
     (Element tag children, filter is_element ns) # (elements children @ elements ns)"

text \<open>The selector \<^verbatim>\<open>"h1, h2, h3, h4, h5, strong, b, p, div, span"\<close>.\<close>

fun selected :: "node \<Rightarrow> bool" where
  "selected (TextNode t) = False"
| "selected (Element tag children) =
     (tag \<in> set [''h1'', ''h2'', ''h3'', ''h4'', ''h5'', ''strong'', ''b'', ''p'', ''div'', ''span''])"

text \<open>
  \<^verbatim>\<open>
  $("h1, h2, h3, h4, h5, strong, b, p, div, span").each((_, el) => {
    const t = norm($(el).text());
    if (/Result of Round #\d+/i.test(t)) headingNodes.push(el);
  });
  \<close>
\<close>

definition headingNodes :: "document \<Rightarrow> (node \<times> node list) list" where
  "headingNodes doc =
     filter (\<lambda>(el, sibs). selected el \<and> headingTest (norm (text_of el))) (elements doc)"

text \<open>
  The walk over the following siblings, from \<open>cur\<close> on:
  \<^verbatim>\<open>
    while (cur.length) {
      const curText = norm(cur.text());
      if (/Result of Round #\d+/i.test(curText)) break;
      if (curText) chunk += "\n" + curText;
      cur = cur.next();
    }
  \<close>
\<close>

fun collectChunk :: "node list \<Rightarrow> jsstring \<Rightarrow> jsstring" where
  "collectChunk [] chunk = chunk"
| "collectChunk (cur # rest) chunk =
     (let curText = norm (text_of cur) in
      if headingTest curText then chunk
      else collectChunk rest (if curText \<noteq> [] then chunk @ 10 # curText else chunk))"

text \<open>
  The loop over \<^verbatim>\<open>headingNodes\<close>, from index \<open>i\<close> on:
  \<^verbatim>\<open>
    const headingText = norm($(headingEl).text());
    const roundMatch = headingText.match(/Result of Round #(\d+)/i);
    const roundNum = roundMatch ? Number(roundMatch[1]) : i + 1;
    ...
    chunk = norm(chunk);
    const names = extractNamesFromChunk(chunk);
    if (names.length > 0) rounds.push({ round: roundNum, names });
  \<close>
\<close>

fun markupRounds :: "nat \<Rightarrow> (node \<times> node list) list \<Rightarrow> round list" where
  "markupRounds i [] = []"
| "markupRounds i ((headingEl, sibs) # hs) =
     (let headingText = norm (text_of headingEl);
          roundNum = (case headingMatch headingText of Some ds \<Rightarrow> Number ds | None \<Rightarrow> enat (i + 1));
          chunk = norm (collectChunk sibs []);
          nms = extractNamesFromChunk chunk
      in (if nms \<noteq> [] then [\<lparr>round_no = roundNum, names = nms\<rparr>] else [])
         @ markupRounds (Suc i) hs)"

text \<open>
  \<^verbatim>\<open>parseRandomOrgVerify\<close>, the entry point \<^verbatim>\<open>extractRounds\<close> of the specification.
  \<open>rawRounds\<close> is the array \<^verbatim>\<open>rounds\<close> of whichever mode runs, before it is sorted.
\<close>

definition bodyText :: "document \<Rightarrow> jsstring" where
  "bodyText doc = norm (concat (map text_of doc))"

definition rawRounds :: "document \<Rightarrow> round list" where
  "rawRounds doc =
     (if headingNodes doc = [] then textRounds (bodyText doc) (headingExec 0 (bodyText doc))
      else markupRounds 0 (headingNodes doc))"

definition parseRandomOrgVerify :: "document \<Rightarrow> error + round list" where
  "parseRandomOrgVerify doc =
     (if headingNodes doc = [] then
        (let t = bodyText doc in
         if \<not> headingTest t then Inl NoRoundsFound else parseFromTextFallback t)
      else
        (let rounds = markupRounds 0 (headingNodes doc) in
         if rounds = [] then Inl NoNamesParsed else Inr (sortRounds rounds)))"

section \<open>The view builder\<close>

text \<open>
  The value of the parameter \<^verbatim>\<open>bottomCount\<close> is a JavaScript number: a finite value (a
  rational here), \<^verbatim>\<open>NaN\<close> or an infinity. (An omitted argument is the default 1.)
\<close>

datatype jsnum = Num rat | NaN | Infinity | NegInfinity

text \<open>\<^verbatim>\<open>Number.isInteger(x)\<close> and \<^verbatim>\<open>x < 1\<close>.\<close>

fun isInteger :: "jsnum \<Rightarrow> bool" where
  "isInteger (Num q) = (q = of_int \<lfloor>q\<rfloor>)"
| "isInteger NaN = False"
| "isInteger Infinity = False"
| "isInteger NegInfinity = False"

fun below1 :: "jsnum \<Rightarrow> bool" where
  "below1 (Num q) = (q < 1)"
| "below1 NaN = False"
| "below1 Infinity = False"
| "below1 NegInfinity = True"

text \<open>\<^verbatim>\<open>Math.min(bottomCount, names.length)\<close> for a count that passed the check.\<close>

fun minCount :: "jsnum \<Rightarrow> nat \<Rightarrow> nat" where
  "minCount (Num q) len = min (nat \<lfloor>q\<rfloor>) len"
| "minCount NaN len = len"
| "minCount Infinity len = len"
| "minCount NegInfinity len = 0"

text \<open>\<^verbatim>\<open>names.slice(-n)\<close>: the last \<open>n\<close> elements; \<^verbatim>\<open>slice(-0)\<close> is the whole array.\<close>

definition sliceLast :: "nat \<Rightarrow> 'a list \<Rightarrow> 'a list" where
  "sliceLast n xs = (if n = 0 then xs else drop (length xs - n) xs)"

text \<open>
  The loop of \<^verbatim>\<open>buildTwoLists\<close>:
  \<^verbatim>\<open>
    const names = r.names;
    if (!names || names.length === 0) continue;
    const num = Number.isFinite(r.round) ? r.round : i + 1;
    topList.push(`${num}. ${names[0]}`);
    const n = Math.min(bottomCount, names.length);
    const bottomN = names.slice(-n).join(", ");
    bottomList.push(`${num}. ${bottomN}`);
  \<close>
  \<open>twoLists bottomCount i rounds\<close> is the loop from index \<open>i\<close> on, \<open>rounds\<close> being the
  rest of the array from there.
\<close>

fun twoLists :: "jsnum \<Rightarrow> nat \<Rightarrow> round list \<Rightarrow> jsstring list \<times> jsstring list" where
  "twoLists bottomCount i [] = ([], [])"
| "twoLists bottomCount i (r # rs) =
     (let (topList, bottomList) = twoLists bottomCount (Suc i) rs in
      case names r of
        [] \<Rightarrow> (topList, bottomList)
      | name0 # _ \<Rightarrow>
          (let num = (if round_no r \<noteq> \<infinity> then round_no r else enat (i + 1));
               n = minCount bottomCount (length (names r));
               bottomN = join (str '', '') (sliceLast n (names r))
           in ((numToString num @ str ''. '' @ name0) # topList,
               (numToString num @ str ''. '' @ bottomN) # bottomList)))"

text \<open>
  \<^verbatim>\<open>
  function buildTwoLists(rounds, bottomCount = 1) {
    if (!Number.isInteger(bottomCount) || bottomCount < 1) {
      throw new Error("bottomCount must be an integer >= 1");
    }
    ...
    return { topList, bottomList };
  }
  \<close>
\<close>

definition buildTwoLists :: "round list \<Rightarrow> jsnum \<Rightarrow> error + (jsstring list \<times> jsstring list)" where
  "buildTwoLists rounds bottomCount =
     (if \<not> isInteger bottomCount \<or> below1 bottomCount then Inl InvalidBottomCount
      else Inr (twoLists bottomCount 0 rounds))"

text \<open>
  \<^verbatim>\<open>const round1 = rounds.find(r => r && Number(r.round) === 1) || rounds[0];\<close>
  (\<^verbatim>\<open>undefined\<close> for an empty array).
\<close>

definition round1 :: "round list \<Rightarrow> round option" where
  "round1 rounds =
     (case find (\<lambda>r. round_no r = 1) rounds of
        Some r \<Rightarrow> Some r
      | None \<Rightarrow> (case rounds of [] \<Rightarrow> None | r0 # _ \<Rightarrow> Some r0))"

text \<open>
  The counts are kept in a plain object, \<^verbatim>\<open>const spotCounts = {}\<close>, whose prototype is
  \<^verbatim>\<open>Object.prototype\<close>. A property holds a number or a string; reading a name that the
  object does not hold itself gives what \<^verbatim>\<open>Object.prototype\<close> has under that name: a
  built-in function, under \<^verbatim>\<open>__proto__\<close> the prototype object, and \<^verbatim>\<open>undefined\<close>
  otherwise.
\<close>

datatype jsval = NumV nat | StrV jsstring | FunV jsstring | ObjectPrototype

definition inherited :: "jsstring \<Rightarrow> jsval option" where
  "inherited name =
     (if name = str ''__proto__'' then Some ObjectPrototype
      else if name \<in> set (map str [''constructor'', ''__defineGetter__'', ''__defineSetter__'',
                 ''hasOwnProperty'', ''__lookupGetter__'', ''__lookupSetter__'', ''isPrototypeOf'',
                 ''propertyIsEnumerable'', ''toString'', ''valueOf'', ''toLocaleString''])
      then Some (FunV (if name = str ''constructor'' then str ''Object'' else name))
      else None)"

text \<open>\<^verbatim>\<open>spotCounts[name]\<close>.\<close>

definition getProp :: "(jsstring \<rightharpoonup> jsval) \<Rightarrow> jsstring \<Rightarrow> jsval option" where
  "getProp spotCounts name =
     (case spotCounts name of Some v \<Rightarrow> Some v | None \<Rightarrow> inherited name)"

text \<open>
  \<^verbatim>\<open>(x || 0) + 1\<close>: \<^verbatim>\<open>undefined\<close>, 0 and the empty string give 1; a number is
  incremented; to any other string the text \<^verbatim>\<open>1\<close> is appended; a built-in function
  and the prototype object are first turned into their texts,
  \<^verbatim>\<open>function f() { [native code] }\<close> (as V8 prints it) and \<^verbatim>\<open>[object Object]\<close>.
\<close>

fun orZeroPlusOne :: "jsval option \<Rightarrow> jsval" where
  "orZeroPlusOne None = NumV 1"
| "orZeroPlusOne (Some (NumV k)) = NumV (k + 1)"
| "orZeroPlusOne (Some (StrV t)) = (if t = [] then NumV 1 else StrV (t @ str ''1''))"
| "orZeroPlusOne (Some (FunV f)) =
     StrV (str ''function '' @ f @ str ''() { [native code] }'' @ str ''1'')"
| "orZeroPlusOne (Some ObjectPrototype) = StrV (str ''[object Object]'' @ str ''1'')"

text \<open>
  \<^verbatim>\<open>spotCounts[name] = v\<close> for a number or a string \<open>v\<close>: under the name
  \<^verbatim>\<open>__proto__\<close> the assignment calls the setter of \<^verbatim>\<open>Object.prototype\<close>, which ignores a
  value that is not an object; under any other name the object gets the property.
\<close>

definition setProp :: "(jsstring \<rightharpoonup> jsval) \<Rightarrow> jsstring \<Rightarrow> jsval \<Rightarrow> (jsstring \<rightharpoonup> jsval)" where
  "setProp spotCounts name v =
     (if name = str ''__proto__'' then spotCounts else spotCounts(name \<mapsto> v))"

text \<open>
  \<^verbatim>\<open>
    for (const raw of round1.names) {
      const name = norm(raw);
      if (!name) continue;
      spotCounts[name] = (spotCounts[name] || 0) + 1;
    }
  \<close>
\<close>

fun countNames :: "jsstring list \<Rightarrow> (jsstring \<rightharpoonup> jsval) \<Rightarrow> (jsstring \<rightharpoonup> jsval)" where
  "countNames [] spotCounts = spotCounts"
| "countNames (raw # rest) spotCounts =
     (let name = norm raw in
      if name = [] then countNames rest spotCounts
      else countNames rest (setProp spotCounts name (orZeroPlusOne (getProp spotCounts name))))"

text \<open>
  \<^verbatim>\<open>buildSpotCountsFromRound1\<close>: the own properties of the object it returns.
\<close>

definition buildSpotCountsFromRound1 :: "round list \<Rightarrow> (jsstring \<rightharpoonup> jsval)" where
  "buildSpotCountsFromRound1 rounds =
     (case round1 rounds of None \<Rightarrow> Map.empty | Some r \<Rightarrow> countNames (names r) Map.empty)"

section \<open>Notions used in the statements\<close>

text \<open>
  A string that begins with an index: a run of digits, then white space, then a rest that
  starts with a code unit that is not white space.
\<close>

definition indexSplit :: "jsstring \<Rightarrow> jsstring \<Rightarrow> jsstring \<Rightarrow> jsstring \<Rightarrow> bool" where
  "indexSplit v ds ws rest \<longleftrightarrow>
     v = ds @ ws @ rest \<and> ds \<noteq> [] \<and> list_all is_digit ds \<and> ws \<noteq> [] \<and> list_all is_ws ws
     \<and> rest \<noteq> [] \<and> \<not> is_ws (hd rest)"

text \<open>The heading pattern occurs in a text: some occurrence of the words, in any letter
  case, followed by at least one digit.\<close>

definition headingOccurs :: "jsstring \<Rightarrow> bool" where
  "headingOccurs t \<longleftrightarrow>
     (\<exists>pre lit ds post. t = pre @ lit @ ds @ post
        \<and> map canon lit = map canon (str ''Result of Round #'') \<and> ds \<noteq> [] \<and> list_all is_digit ds)"

text \<open>The chunks of text mode, one for each heading, and the names that the chunk of each
  anchor yields in the mode that runs.\<close>

fun textChunks :: "jsstring \<Rightarrow> (enat \<times> nat) list \<Rightarrow> jsstring list" where
  "textChunks text [] = []"
| "textChunks text ((rnd, start) # hs) =
     norm (slice start (case hs of [] \<Rightarrow> length text | (_, e) # _ \<Rightarrow> e) text) # textChunks text hs"

definition chunkNames :: "document \<Rightarrow> jsstring list list" where
  "chunkNames doc =
     (if headingNodes doc = []
      then map (lineExec True) (textChunks (bodyText doc) (headingExec 0 (bodyText doc)))
      else map (\<lambda>(el, sibs). extractNamesFromChunk (norm (collectChunk sibs []))) (headingNodes doc))"

text \<open>The part of the tail after its leading white space: \<^verbatim>\<open>(.+?)\s*$\<close>.\<close>

definition capAfter :: "bool \<Rightarrow> jsstring \<Rightarrow> (jsstring \<times> jsstring) list" where
  "capAfter multiline s1 = [(take (length s1 - length s2) s1, s3).
      s2 \<leftarrow> re_lazy_plus (\<lambda>c. \<not> is_lt c) s1, s3 \<leftarrow> re_star is_ws s2, re_eol multiline s3]"


subsection \<open>Example pages\<close>

text \<open>A page whose first heading is round 3 and whose second heading is round 2.\<close>

definition doc32 :: document where
  "doc32 = [Element ''p'' [TextNode (str ''Result of Round #3'')],
            Element ''p'' [TextNode (str ''1. 1. Alice'')],
            Element ''p'' [TextNode (str ''Result of Round #2'')],
            Element ''p'' [TextNode (str ''1. 1. Bob'')]]"

text \<open>A page without markup, which text mode reads.\<close>

definition docText :: document where
  "docText = [TextNode (str ''Result of Round #1'' @ 10 # str ''1.  2.   Carol  Ann '')]"

text \<open>A page without the heading pattern.\<close>

definition docNoHeading :: document where
  "docNoHeading = [Element ''p'' [TextNode (str ''Round 1 results'')], TextNode (str ''1. 1. Alice'')]"

text \<open>Pages with a heading and no name line, with markup and without.\<close>

definition docMarkupNoNames :: document where
  "docMarkupNoNames = [Element ''h2'' [TextNode (str ''Result of Round #1'')],
                       Element ''p'' [TextNode (str ''no entries'')]]"

definition docTextNoNames :: document where
  "docTextNoNames = [TextNode (str ''Result of Round #1'' @ 10 # str ''no entries'')]"



section \<open>The two loops over the matches of a pattern end\<close>

text \<open>
  Every piece leaves a suffix of its input, and the patterns used with the flag \<^verbatim>\<open>g\<close>
  never match the empty string, so \<^verbatim>\<open>lastIndex\<close> advances with every match and the
  two \<^verbatim>\<open>exec\<close> loops end.
\<close>

lemma re_star_suffix: "r \<in> set (re_star P s) \<Longrightarrow> suffix r s"
  by (induction s) (auto simp: suffix_Cons split: if_splits)

lemma re_lazy_star_suffix: "r \<in> set (re_lazy_star P s) \<Longrightarrow> suffix r s"
  by (induction s) (auto simp: suffix_Cons split: if_splits)

lemma re_plus_suffix: "r \<in> set (re_plus P s) \<Longrightarrow> suffix r s"
  by (cases s) (auto simp: re_plus_def suffix_Cons dest!: re_star_suffix split: if_splits)

lemma re_lazy_plus_suffix: "r \<in> set (re_lazy_plus P s) \<Longrightarrow> suffix r s"
  by (cases s) (auto simp: re_lazy_plus_def suffix_Cons dest!: re_lazy_star_suffix split: if_splits)

lemma re_chr_suffix: "r \<in> set (re_chr c s) \<Longrightarrow> suffix r s"
  by (cases s) (auto simp: re_chr_def suffix_Cons split: if_splits)

lemma re_lit_ci_suffix: "r \<in> set (re_lit_ci p s) \<Longrightarrow> suffix r s"
  by (induction p s rule: re_lit_ci.induct) (auto simp: suffix_Cons split: if_splits)

lemma re_star_len: "r \<in> set (re_star P s) \<Longrightarrow> length r \<le> length s"
  by (simp add: re_star_suffix suffix_length_le)

lemma re_plus_len: "r \<in> set (re_plus P s) \<Longrightarrow> length r < length s"
  by (cases s) (auto simp: re_plus_def le_imp_less_Suc dest!: re_star_len split: if_splits)

lemma re_lazy_plus_len: "r \<in> set (re_lazy_plus P s) \<Longrightarrow> length r < length s"
  by (cases s) (auto simp: re_lazy_plus_def le_imp_less_Suc dest!: re_lazy_star_suffix suffix_length_le split: if_splits)

lemma re_chr_len: "r \<in> set (re_chr c s) \<Longrightarrow> length r < length s"
  by (cases s) (auto simp: re_chr_def split: if_splits)

lemma re_lit_ci_len: "r \<in> set (re_lit_ci p s) \<Longrightarrow> length r \<le> length s"
  by (simp add: re_lit_ci_suffix suffix_length_le)

lemma re_lit_ci_shorter: "r \<in> set (re_lit_ci (c # p) s) \<Longrightarrow> length r < length s"
  by (cases s) (auto simp: le_imp_less_Suc dest!: re_lit_ci_len split: if_splits)

lemma first_SomeD: "first xs = Some x \<Longrightarrow> x \<in> set xs"
  by (cases xs) (auto simp: first_def)

lemma numDot_len: "r \<in> set (numDot s) \<Longrightarrow> length r < length s"
  unfolding numDot_def
  by (auto dest!: re_star_len re_plus_len re_chr_len)

lemma capTail_len: "(cap, r) \<in> set (capTail ml s) \<Longrightarrow> length r < length s"
  unfolding capTail_def
  by (auto dest!: re_star_len re_lazy_plus_len)

lemma lineReAt_shorter: "lineReAt s = Some (cap, r) \<Longrightarrow> length r < length s"
  unfolding lineReAt_def
  by (auto dest!: first_SomeD numDot_len capTail_len)

lemma headingReAt_shorter: "headingReAt s = Some (ds, r) \<Longrightarrow> length r < length s"
  unfolding headingReAt_def
  by (auto simp: str_def dest!: first_SomeD re_star_len re_plus_len re_chr_len
      re_lit_ci_shorter re_lit_ci_len)

termination headingExec
  by (relation "measure (\<lambda>(i, s). length s)") (auto dest: headingReAt_shorter)

termination lineExec
  by (relation "measure (\<lambda>(bol, s). length s)") (auto dest: lineReAt_shorter split: if_splits)

section \<open>Properties of the normalizer\<close>

lemma squeezed_Cons: "squeezed (c # s) = (c \<noteq> 9 \<and> (s \<noteq> [] \<longrightarrow> \<not> (c = 32 \<and> hd s = 32)) \<and> squeezed s)"
  by (cases s) auto

lemma squeezed_tl: "squeezed (c # s) \<Longrightarrow> squeezed s"
  by (simp add: squeezed_Cons)

lemma squeezed_drop: "squeezed s \<Longrightarrow> squeezed (drop n s)"
proof (induction n arbitrary: s)
  case 0 then show ?case by simp
next
  case (Suc n) then show ?case by (cases s) (auto dest: squeezed_tl)
qed

lemma squeezed_take: "squeezed s \<Longrightarrow> squeezed (take n s)"
proof (induction s arbitrary: n)
  case Nil then show ?case by simp
next
  case (Cons c s)
  show ?case
  proof (cases n)
    case 0 then show ?thesis by simp
  next
    case (Suc m)
    from Cons have "squeezed (take m s)" by (auto dest: squeezed_tl)
    moreover have "take m s \<noteq> [] \<Longrightarrow> hd (take m s) = hd s \<and> s \<noteq> []" by (cases s; cases m) auto
    ultimately show ?thesis using Cons.prems Suc by (auto simp: squeezed_Cons)
  qed
qed

lemma dropWhile_is_drop: "dropWhile P s = drop (length (takeWhile P s)) s"
  by (induction s) auto

lemma squeezed_dropWhile: "squeezed s \<Longrightarrow> squeezed (dropWhile P s)"
  by (simp add: dropWhile_is_drop squeezed_drop)

lemma rev_dropWhile_rev: "rev (dropWhile P (rev s)) = take (length s - length (takeWhile P (rev s))) s"
proof -
  have "rev s = takeWhile P (rev s) @ dropWhile P (rev s)" by simp
  then have "s = rev (dropWhile P (rev s)) @ rev (takeWhile P (rev s))"
    by (metis rev_append rev_rev_ident)
  then show ?thesis
    by (metis append_eq_conv_conj diff_add_inverse2 length_append length_rev)
qed

lemma trim_is_slice: "\<exists>i n. trim s = take n (drop i s)"
  unfolding trim_def by (metis rev_dropWhile_rev dropWhile_is_drop)

lemma squeezed_trim: "squeezed s \<Longrightarrow> squeezed (trim s)"
  using trim_is_slice[of s] by (auto simp: squeezed_take squeezed_drop)

lemma set_trim: "set (trim s) \<subseteq> set s"
  using trim_is_slice[of s] by (metis in_set_takeD in_set_dropD subsetI)

lemma squeezed_collapse: "squeezed (collapse s)"
proof (induction s rule: collapse.induct)
  case 1 then show ?case by simp
next
  case (2 c cs)
  show ?case
  proof (cases "is_blank c")
    case True
    let ?r = "dropWhile is_blank cs"
    have "?r \<noteq> [] \<Longrightarrow> \<not> is_blank (hd ?r)" by (rule hd_dropWhile)
    then have "collapse ?r \<noteq> [] \<Longrightarrow> hd (collapse ?r) \<noteq> 32"
      by (cases ?r) (auto simp: is_blank_def)
    with 2 True show ?thesis by (simp add: squeezed_Cons)
  next
    case False
    have "collapse cs \<noteq> [] \<Longrightarrow> True" by simp
    with 2 False show ?thesis by (auto simp: squeezed_Cons is_blank_def)
  qed
qed

lemma collapse_squeezed: "squeezed s \<Longrightarrow> collapse s = s"
proof (induction s rule: squeezed.induct)
  case 1 then show ?case by simp
next
  case (2 c) then show ?case by (simp add: is_blank_def)
next
  case (3 c d r)
  then show ?case by (auto simp: is_blank_def)
qed

lemma set_collapse: "set (collapse s) \<subseteq> insert 32 (set s)"
proof (induction s rule: collapse.induct)
  case 1 then show ?case by simp
next
  case (2 c cs)
  then show ?case by (auto dest: set_dropWhileD)
qed

lemma trim_ends: "trim s \<noteq> [] \<Longrightarrow> \<not> is_ws (hd (trim s)) \<and> \<not> is_ws (last (trim s))"
proof -
  assume ne: "trim s \<noteq> []"
  let ?u = "dropWhile is_ws s"
  let ?v = "dropWhile is_ws (rev ?u)"
  have v: "?v \<noteq> []" using ne by (simp add: trim_def)
  then have "\<not> is_ws (hd ?v)" by (rule hd_dropWhile)
  then have l: "\<not> is_ws (last (trim s))" using v by (simp add: trim_def last_rev)
  have u: "?u \<noteq> []" using v by (cases ?u) simp_all
  then have hu: "\<not> is_ws (hd ?u)" by (rule hd_dropWhile)
  have "last ?v = last (rev ?u)"
    by (metis v append_Nil2 last_appendR takeWhile_dropWhile_id)
  then have "hd (trim s) = hd ?u" using v u by (simp add: trim_def hd_rev last_rev)
  with hu l show ?thesis by simp
qed

lemma trim_id: "s = [] \<or> (\<not> is_ws (hd s) \<and> \<not> is_ws (last s)) \<Longrightarrow> trim s = s"
proof (cases "s = []")
  case True then show ?thesis by (simp add: trim_def)
next
  case False
  assume "s = [] \<or> (\<not> is_ws (hd s) \<and> \<not> is_ws (last s))"
  with False have h: "\<not> is_ws (hd s)" and l: "\<not> is_ws (last s)" by auto
  from False h have "dropWhile is_ws s = s" by (cases s) auto
  moreover from False l have "dropWhile is_ws (rev s) = rev s" by (cases "rev s") (auto simp: last_rev hd_rev)
  ultimately show ?thesis by (simp add: trim_def)
qed

lemma to_space_id: "c \<notin> set s \<Longrightarrow> to_space c s = s"
  by (induction s) (auto simp: to_space_def)

lemma set_to_space: "set (to_space c s) \<subseteq> insert 32 (set s - {c})"
  by (auto simp: to_space_def)

lemma normalized_norm: "normalized (norm s)"
proof -
  let ?a = "filter (\<lambda>c. c \<noteq> 13) s"
  let ?b = "to_space 8199 (to_space 8239 (to_space 160 ?a))"
  have "13 \<notin> set ?b \<and> 160 \<notin> set ?b \<and> 8239 \<notin> set ?b \<and> 8199 \<notin> set ?b"
    by (auto simp: to_space_def)
  then have "13 \<notin> set (collapse ?b) \<and> 160 \<notin> set (collapse ?b) \<and> 8239 \<notin> set (collapse ?b) \<and> 8199 \<notin> set (collapse ?b)"
    using set_collapse[of ?b] by auto
  then have "13 \<notin> set (norm s) \<and> 160 \<notin> set (norm s) \<and> 8239 \<notin> set (norm s) \<and> 8199 \<notin> set (norm s)"
    using set_trim[of "collapse ?b"] unfolding norm_def by auto
  moreover have "squeezed (norm s)" unfolding norm_def by (intro squeezed_trim squeezed_collapse)
  moreover have "norm s \<noteq> [] \<longrightarrow> \<not> is_ws (hd (norm s)) \<and> \<not> is_ws (last (norm s))"
    unfolding norm_def using trim_ends by blast
  ultimately show ?thesis unfolding normalized_def by blast
qed

lemma norm_normalized: "normalized s \<Longrightarrow> norm s = s"
proof -
  assume n: "normalized s"
  then have "filter (\<lambda>c. c \<noteq> 13) s = s" by (auto simp: normalized_def filter_id_conv)
  moreover have "to_space 160 s = s" "to_space 8239 s = s" "to_space 8199 s = s"
    using n by (auto simp: normalized_def to_space_id)
  moreover have "collapse s = s" using n by (simp add: normalized_def collapse_squeezed)
  moreover have "trim s = s" using n by (intro trim_id) (auto simp: normalized_def)
  ultimately show ?thesis by (simp add: norm_def)
qed

text \<open>
  C9. The text normalizer is idempotent: normalizing the result of a normalization
  returns it unchanged, for every input string.
\<close>

theorem norm_idempotent: "norm (norm s) = norm s"
  by (rule norm_normalized) (rule normalized_norm)

section \<open>The view builder: the bottom count\<close>

lemma isInteger_iff: "isInteger b \<and> \<not> below1 b \<longleftrightarrow> (\<exists>n::nat. 1 \<le> n \<and> b = Num (of_nat n))"
proof (cases b)
  case (Num q)
  show ?thesis
  proof
    assume a: "isInteger b \<and> \<not> below1 b"
    with Num have q: "q = of_int \<lfloor>q\<rfloor>" and "1 \<le> q" by auto
    then have "1 \<le> \<lfloor>q\<rfloor>" by linarith
    then have "1 \<le> nat \<lfloor>q\<rfloor> \<and> q = of_nat (nat \<lfloor>q\<rfloor>)" using q by auto
    with Num show "\<exists>n::nat. 1 \<le> n \<and> b = Num (of_nat n)" by blast
  next
    assume "\<exists>n::nat. 1 \<le> n \<and> b = Num (of_nat n)"
    then show "isInteger b \<and> \<not> below1 b" by auto
  qed
qed auto

text \<open>
  C7. \<^verbatim>\<open>buildTwoLists\<close> fails with \<open>InvalidBottomCount\<close> exactly when its argument
  \<^verbatim>\<open>bottomCount\<close> is not an integer greater than or equal to 1, whatever the rounds are;
  in particular 0 fails.
\<close>

theorem buildTwoLists_fails_iff:
  "buildTwoLists rounds bottomCount = Inl InvalidBottomCount
     \<longleftrightarrow> \<not> (\<exists>n::nat. 1 \<le> n \<and> bottomCount = Num (of_nat n))"
  using isInteger_iff[of bottomCount] by (auto simp: buildTwoLists_def)

theorem buildTwoLists_fails_iff_witness:
  "buildTwoLists [\<lparr>round_no = 1, names = [str ''Alice'']\<rparr>] (Num 0) = Inl InvalidBottomCount
   \<and> buildTwoLists [\<lparr>round_no = 1, names = [str ''Alice'']\<rparr>] (Num (1/2)) = Inl InvalidBottomCount
   \<and> buildTwoLists [\<lparr>round_no = 1, names = [str ''Alice'']\<rparr>] NaN = Inl InvalidBottomCount
   \<and> buildTwoLists [\<lparr>round_no = 1, names = [str ''Alice'']\<rparr>] (Num 2) \<noteq> Inl InvalidBottomCount"
proof -
  let ?rs = "[\<lparr>round_no = 1, names = [str ''Alice'']\<rparr>]"
  have n: "\<And>q. (\<exists>n::nat. 1 \<le> n \<and> Num q = Num (of_nat n)) \<longleftrightarrow> (\<exists>n::nat. 1 \<le> n \<and> q = of_nat n)" by simp
  have "\<not> (\<exists>n::nat. 1 \<le> n \<and> (0::rat) = of_nat n)" by auto
  moreover have "\<not> (\<exists>n::nat. 1 \<le> n \<and> (1/2::rat) = of_nat n)"
  proof
    assume "\<exists>n::nat. 1 \<le> n \<and> (1/2::rat) = of_nat n"
    then obtain n :: nat where "(1/2::rat) = of_nat n" by blast
    then have "(1::rat) = of_nat (2 * n)" by simp
    then have "1 = 2 * n" using of_nat_eq_iff[where 'a=rat, of 1 "2*n"] by simp
    then show False by presburger
  qed
  moreover have "(\<exists>n::nat. 1 \<le> n \<and> (2::rat) = of_nat n)" by (rule exI[of _ 2]) simp
  ultimately show ?thesis
    using buildTwoLists_fails_iff[of ?rs "Num 0"] buildTwoLists_fails_iff[of ?rs "Num (1/2)"]
      buildTwoLists_fails_iff[of ?rs NaN] buildTwoLists_fails_iff[of ?rs "Num 2"]
    by (simp only: n) simp
qed

section \<open>Round numbers\<close>

text \<open>A run of digits whose value is below \<open>2^53\<close> is read exactly; one whose value is
  \<open>2^1024\<close> or more is read as \<^verbatim>\<open>Infinity\<close>.\<close>

lemma bitlen_bounds: "n \<noteq> 0 \<Longrightarrow> 2 ^ (bitlen n - 1) \<le> n \<and> n < 2 ^ bitlen n"
proof (induction n rule: bitlen.induct)
  case (1 n)
  show ?case
  proof (cases "n div 2 = 0")
    case True
    with 1(2) have "n = 1" by (simp add: div_eq_0_iff) 
    then show ?thesis by simp
  next
    case False
    from 1(1)[OF 1(2) False] have ih: "2 ^ (bitlen (n div 2) - 1) \<le> n div 2" "n div 2 < 2 ^ bitlen (n div 2)"
      by simp_all
    from False have pos: "bitlen (n div 2) \<noteq> 0" by (subst bitlen.simps) simp
    have b: "bitlen n = Suc (bitlen (n div 2))" using 1(2) by (subst bitlen.simps) simp
    have "(2::nat) ^ bitlen (n div 2) = 2 * 2 ^ (bitlen (n div 2) - 1)"
      using pos by (cases "bitlen (n div 2)") simp_all
    with ih(1) have lo: "2 ^ bitlen (n div 2) \<le> n" by linarith
    from ih(2) have "n < 2 * 2 ^ bitlen (n div 2)" by linarith
    with lo b show ?thesis by simp
  qed
qed

lemma roundDouble_overflow:
  assumes "2 ^ 1024 \<le> n"
  shows "roundDouble n = None"
proof -
  have "(0::nat) < 2 ^ 1024" by (rule zero_less_power) simp
  with assms have n0: "n \<noteq> 0" by linarith
  note bb = bitlen_bounds[OF n0]
  define e where "e = bitlen n - 53"
  have "(2::nat) ^ 1024 < 2 ^ bitlen n" using assms bb by linarith
  then have big: "1024 < bitlen n" by (rule power_less_imp_less_exp[rotated]) simp
  then have bl: "bitlen n - 1 = 52 + e" by (simp add: e_def)
  have "(2::nat) ^ 52 * 2 ^ e \<le> n" using bb unfolding bl power_add by blast
  then have "(2::nat) ^ 52 \<le> n div 2 ^ e" by (subst less_eq_div_iff_mult_less_eq) simp_all
  then have q: "(2::nat) ^ 52 * 2 ^ e \<le> (n div 2 ^ e) * 2 ^ e" by (rule mult_le_mono1)
  have "1024 \<le> 52 + e" using big bl by linarith
  then have "(2::nat) ^ 1024 \<le> 2 ^ (52 + e)" by (rule power_increasing) simp
  also have "\<dots> = 2 ^ 52 * 2 ^ e" by (rule power_add)
  also note q
  finally have v: "\<not> (n div 2 ^ e) * 2 ^ e < 2 ^ 1024" by (rule leD)
  have "(n div 2 ^ e) * 2 ^ e \<le> (n div 2 ^ e + 1) * 2 ^ e" by (rule mult_le_mono1) simp
  with v have v': "\<not> (n div 2 ^ e + 1) * 2 ^ e < 2 ^ 1024" by linarith
  have "(2::nat) ^ 53 \<le> 2 ^ 1024" by (rule power_increasing) simp_all
  with assms have "\<not> n < 2 ^ 53" by linarith
  then show ?thesis
    unfolding roundDouble_def Let_def e_def[symmetric] using v v'
    by (simp only: if_False if_True option.simps split: if_splits) blast
qed

lemma Number_Infinity: "2 ^ 1024 \<le> foldl (\<lambda>a c. 10 * a + (c - 48)) 0 ds \<Longrightarrow> Number ds = \<infinity>"
  by (simp only: Number_def roundDouble_overflow option.case)

lemma Number_exact: "foldl (\<lambda>a c. 10 * a + (c - 48)) 0 ds < 2 ^ 53 \<Longrightarrow> Number ds = enat (foldl (\<lambda>a c. 10 * a + (c - 48)) 0 ds)"
  by (simp add: Number_def roundDouble_def)


text \<open>Evaluation of the conversions on numerals.\<close>

lemma bitlen_eval:
  "bitlen 0 = 0" "bitlen (Suc 0) = 1" "bitlen 1 = 1"
  "bitlen (numeral k) = Suc (bitlen (numeral k div 2))"
  by simp_all

lemma shortest_eval:
  "shortest x k (numeral f) =
     (case closest x k (candidates x k) of
        Some (s, n) \<Rightarrow> Some (k, s, n)
      | None \<Rightarrow> shortest x (Suc k) (pred_numeral f))"
  by (simp add: numeral_eq_Suc)

lemmas number_eval = Number_def numToString_def roundDouble_def str_def Let_def bitlen_eval
  shortest_eval candidates_def dist_def numeral_eq_enat one_enat_def zero_enat_def

lemma numToString_digit: "n < 10 \<Longrightarrow> numToString (enat n) = [48 + n]"
  by (simp add: numToString_def)

lemma numToString_examples:
  "numToString 7 = str ''7''"
  "numToString 1000000000000000000000 = str ''1e+21''"
  "numToString \<infinity> = str ''Infinity''"
  by (simp_all add: number_eval del: bitlen.simps)


lemma Number_examples:
  "Number (str ''007'') = 7"
  "Number (str ''9007199254740993'') = 9007199254740992"
  "Number (str ''1000000000000000000000'') = 1000000000000000000000"
  by (simp_all add: number_eval del: bitlen.simps)

lemma Number_Infinity_example:
  "Number (str ''200000000000000000000000000000000000000000000000000000000000000000000000000000000000000000000000000000000000000000000000000000000000000000000000000000000000000000000000000000000000000000000000000000000000000000000000000000000000000000000000000000000000000000000000000000000000000000000000000000000000000000000'') = \<infinity>"
  by (rule Number_Infinity) (simp add: str_def)

section \<open>The view builder: the bottom list\<close>

lemma sliceLast_minCount:
  "1 \<le> b \<Longrightarrow> ns \<noteq> [] \<Longrightarrow>
   sliceLast (minCount (Num (of_nat b)) (length ns)) ns = drop (length ns - min b (length ns)) ns"
  by (cases ns) (auto simp: sliceLast_def min_def)

lemma twoLists_bottom:
  "1 \<le> b \<Longrightarrow>
   snd (twoLists (Num (of_nat b)) i rounds) =
     map (\<lambda>(i, r). numToString (if round_no r \<noteq> \<infinity> then round_no r else enat (i + 1)) @ str ''. '' @
                join (str '', '') (drop (length (names r) - min b (length (names r))) (names r)))
         (filter (\<lambda>(i, r). names r \<noteq> []) (List.enumerate i rounds))"
proof (induction rounds arbitrary: i)
  case Nil
  then show ?case by simp
next
  case (Cons r rs)
  show ?case
  proof (cases "names r")
    case Nil
    with Cons.IH[OF Cons.prems, of "Suc i"] show ?thesis by (simp add: case_prod_unfold)
  next
    case (Cons n0 ns)
    then have ne: "names r \<noteq> []" by simp
    from Cons.prems have s: "sliceLast (minCount (Num (of_nat b)) (length (names r))) (names r)
        = drop (length (names r) - min b (length (names r))) (names r)"
      using ne by (rule sliceLast_minCount)
    have "snd (twoLists (Num (of_nat b)) i (r # rs)) =
        (numToString (if round_no r \<noteq> \<infinity> then round_no r else enat (i + 1)) @ str ''. '' @
           join (str '', '') (sliceLast (minCount (Num (of_nat b)) (length (names r))) (names r)))
        # snd (twoLists (Num (of_nat b)) (Suc i) rs)"
      using Cons by (simp add: case_prod_unfold Let_def)
    with Cons.IH[OF Cons.prems, of "Suc i"] s ne show ?thesis by simp
  qed
qed

text \<open>
  C8. For every list of rounds and every integer \<open>b \<ge> 1\<close>, the bottom list has one entry
  for each round that has names, in order: the label of the round, \<^verbatim>\<open>". "\<close>, and the
  last \<open>min b (length names)\<close> names of the round in their original order joined with
  \<^verbatim>\<open>", "\<close>. The label is the text of the round number when that is finite, and the
  text of the position of the round in the list, counted from 1, when it is
  \<^verbatim>\<open>Infinity\<close>. The names taken for an entry are never more than
  \<open>min b (length names)\<close>.
\<close>

theorem buildTwoLists_bottom:
  assumes "1 \<le> b"
  shows "(\<exists>topList. buildTwoLists rounds (Num (of_nat b)) =
            Inr (topList,
                 map (\<lambda>(i, r). numToString (if round_no r \<noteq> \<infinity> then round_no r else enat (i + 1))
                        @ str ''. '' @
                        join (str '', '') (drop (length (names r) - min b (length (names r))) (names r)))
                     (filter (\<lambda>(i, r). names r \<noteq> []) (List.enumerate 0 rounds))))
       \<and> (\<forall>r \<in> set rounds. names r \<noteq> [] \<longrightarrow>
            length (sliceLast (minCount (Num (of_nat b)) (length (names r))) (names r))
              = min b (length (names r)))"
proof
  have ok: "\<not> (\<not> isInteger (Num (of_nat b)) \<or> below1 (Num (of_nat b)))"
    using assms by simp
  have "buildTwoLists rounds (Num (of_nat b)) = Inr (twoLists (Num (of_nat b)) 0 rounds)"
    unfolding buildTwoLists_def using ok by (simp only: if_False)
  also have "\<dots> = Inr (fst (twoLists (Num (of_nat b)) 0 rounds), snd (twoLists (Num (of_nat b)) 0 rounds))"
    by simp
  finally show "\<exists>topList. buildTwoLists rounds (Num (of_nat b)) =
            Inr (topList,
                 map (\<lambda>(i, r). numToString (if round_no r \<noteq> \<infinity> then round_no r else enat (i + 1))
                        @ str ''. '' @
                        join (str '', '') (drop (length (names r) - min b (length (names r))) (names r)))
                     (filter (\<lambda>(i, r). names r \<noteq> []) (List.enumerate 0 rounds)))"
    using twoLists_bottom[OF assms, of 0 rounds] by (intro exI) simp
next
  show "\<forall>r \<in> set rounds. names r \<noteq> [] \<longrightarrow>
            length (sliceLast (minCount (Num (of_nat b)) (length (names r))) (names r))
              = min b (length (names r))"
  proof (intro ballI impI)
    fix r assume "r \<in> set rounds" and ne: "names r \<noteq> []"
    show "length (sliceLast (minCount (Num (of_nat b)) (length (names r))) (names r))
              = min b (length (names r))"
      unfolding sliceLast_minCount[OF assms ne] by simp
  qed
qed

theorem buildTwoLists_bottom_witness:
  "buildTwoLists [\<lparr>round_no = 1, names = [str ''Alice'', str ''Bob'', str ''Carol'']\<rparr>,
                  \<lparr>round_no = 1000000000000000000000, names = [str ''Dave'']\<rparr>,
                  \<lparr>round_no = \<infinity>, names = [str ''Erin'', str ''Frank'']\<rparr>] (Num 2)
     = Inr ([str ''1. Alice'', str ''1e+21. Dave'', str ''3. Erin''],
            [str ''1. Bob, Carol'', str ''1e+21. Dave'', str ''3. Erin, Frank''])"
proof -
  let ?rs = "[\<lparr>round_no = 1, names = [str ''Alice'', str ''Bob'', str ''Carol'']\<rparr>,
              \<lparr>round_no = 1000000000000000000000, names = [str ''Dave'']\<rparr>,
              \<lparr>round_no = \<infinity>, names = [str ''Erin'', str ''Frank'']\<rparr>]"
  have b: "(1::nat) \<le> 2" by simp
  have n: "numToString (enat 1000000000000000000000) = str ''1e+21''"
    using numToString_examples(2) by (simp only: numeral_eq_enat)
  note ev = n numToString_digit one_enat_def numeral_eq_enat Let_def str_def
  from buildTwoLists_bottom[OF b, of ?rs]
  obtain topList where t: "buildTwoLists ?rs (Num (of_nat 2)) = Inr (topList,
      map (\<lambda>(i, r). numToString (if round_no r \<noteq> \<infinity> then round_no r else enat (i + 1))
                        @ str ''. '' @
                        join (str '', '') (drop (length (names r) - min 2 (length (names r))) (names r)))
                     (filter (\<lambda>(i, r). names r \<noteq> []) (List.enumerate 0 ?rs)))" by blast
  have top: "fst (twoLists (Num 2) 0 ?rs) = [str ''1. Alice'', str ''1e+21. Dave'', str ''3. Erin'']"
    by (simp add: ev)
  from t have "topList = fst (twoLists (Num 2) 0 ?rs)"
    by (simp add: buildTwoLists_def)
  with t top show ?thesis by (simp add: ev)
qed

section \<open>What the pieces of a pattern accept\<close>

lemma first_None_iff: "first xs = None \<longleftrightarrow> xs = []"
  by (cases xs) (auto simp: first_def)

lemma first_in_set: "first xs \<noteq> None \<longleftrightarrow> (\<exists>x. x \<in> set xs)"
  by (cases xs) (auto simp: first_def)

lemma re_star_iff: "r \<in> set (re_star P s) \<longleftrightarrow> (\<exists>p. s = p @ r \<and> (\<forall>c\<in>set p. P c))"
proof (induction s)
  case Nil
  then show ?case by auto
next
  case (Cons a s)
  show ?case
  proof
    assume "r \<in> set (re_star P (a # s))"
    then consider "r = a # s" | "P a" "r \<in> set (re_star P s)" by (auto split: if_splits)
    then show "\<exists>p. a # s = p @ r \<and> (\<forall>c\<in>set p. P c)"
    proof cases
      case 1
      then show ?thesis by (intro exI[of _ "[]"]) simp
    next
      case 2
      with Cons obtain p where "s = p @ r" "\<forall>c\<in>set p. P c" by blast
      with 2 show ?thesis by (intro exI[of _ "a # p"]) simp
    qed
  next
    assume "\<exists>p. a # s = p @ r \<and> (\<forall>c\<in>set p. P c)"
    then obtain p where p: "a # s = p @ r" "\<forall>c\<in>set p. P c" by blast
    show "r \<in> set (re_star P (a # s))"
    proof (cases p)
      case Nil
      with p show ?thesis by auto
    next
      case (Cons b q)
      with p have "P a" "s = q @ r" "\<forall>c\<in>set q. P c" by auto
      with Cons.IH show ?thesis by auto
    qed
  qed
qed

lemma re_star_hd: "\<exists>rest. re_star P s = dropWhile P s # rest"
  by (induction s) auto

lemma re_lazy_star_iff: "r \<in> set (re_lazy_star P s) \<longleftrightarrow> (\<exists>p. s = p @ r \<and> (\<forall>c\<in>set p. P c))"
proof (induction s)
  case Nil
  then show ?case by auto
next
  case (Cons a s)
  show ?case
  proof
    assume "r \<in> set (re_lazy_star P (a # s))"
    then consider "r = a # s" | "P a" "r \<in> set (re_lazy_star P s)" by (auto split: if_splits)
    then show "\<exists>p. a # s = p @ r \<and> (\<forall>c\<in>set p. P c)"
    proof cases
      case 1
      then show ?thesis by (intro exI[of _ "[]"]) simp
    next
      case 2
      with Cons obtain p where "s = p @ r" "\<forall>c\<in>set p. P c" by blast
      with 2 show ?thesis by (intro exI[of _ "a # p"]) simp
    qed
  next
    assume "\<exists>p. a # s = p @ r \<and> (\<forall>c\<in>set p. P c)"
    then obtain p where p: "a # s = p @ r" "\<forall>c\<in>set p. P c" by blast
    show "r \<in> set (re_lazy_star P (a # s))"
    proof (cases p)
      case Nil
      with p show ?thesis by auto
    next
      case (Cons b q)
      with p have "P a" "s = q @ r" "\<forall>c\<in>set q. P c" by auto
      with Cons.IH show ?thesis by auto
    qed
  qed
qed

lemma re_plus_iff:
  "r \<in> set (re_plus P s) \<longleftrightarrow> (\<exists>p. p \<noteq> [] \<and> s = p @ r \<and> (\<forall>c\<in>set p. P c))"
proof (cases s)
  case Nil
  then show ?thesis by (simp add: re_plus_def)
next
  case (Cons a t)
  show ?thesis
  proof
    assume "r \<in> set (re_plus P s)"
    with Cons have "P a" "r \<in> set (re_star P t)" by (auto simp: re_plus_def split: if_splits)
    then obtain p where "t = p @ r" "\<forall>c\<in>set p. P c" unfolding re_star_iff by blast
    with Cons \<open>P a\<close> show "\<exists>p. p \<noteq> [] \<and> s = p @ r \<and> (\<forall>c\<in>set p. P c)"
      by (intro exI[of _ "a # p"]) simp
  next
    assume "\<exists>p. p \<noteq> [] \<and> s = p @ r \<and> (\<forall>c\<in>set p. P c)"
    then obtain p where p: "p \<noteq> []" "s = p @ r" "\<forall>c\<in>set p. P c" by blast
    then obtain b q where q: "p = b # q" by (cases p) auto
    with p Cons have "P a" "t = q @ r" "\<forall>c\<in>set q. P c" by auto
    then have "r \<in> set (re_star P t)" unfolding re_star_iff by blast
    with Cons \<open>P a\<close> show "r \<in> set (re_plus P s)" by (simp add: re_plus_def)
  qed
qed

lemma re_lazy_plus_iff:
  "r \<in> set (re_lazy_plus P s) \<longleftrightarrow> (\<exists>p. p \<noteq> [] \<and> s = p @ r \<and> (\<forall>c\<in>set p. P c))"
proof (cases s)
  case Nil
  then show ?thesis by (simp add: re_lazy_plus_def)
next
  case (Cons a t)
  show ?thesis
  proof
    assume "r \<in> set (re_lazy_plus P s)"
    with Cons have "P a" "r \<in> set (re_lazy_star P t)" by (auto simp: re_lazy_plus_def split: if_splits)
    then obtain p where "t = p @ r" "\<forall>c\<in>set p. P c" unfolding re_lazy_star_iff by blast
    with Cons \<open>P a\<close> show "\<exists>p. p \<noteq> [] \<and> s = p @ r \<and> (\<forall>c\<in>set p. P c)"
      by (intro exI[of _ "a # p"]) simp
  next
    assume "\<exists>p. p \<noteq> [] \<and> s = p @ r \<and> (\<forall>c\<in>set p. P c)"
    then obtain p where p: "p \<noteq> []" "s = p @ r" "\<forall>c\<in>set p. P c" by blast
    then obtain b q where q: "p = b # q" by (cases p) auto
    with p Cons have "P a" "t = q @ r" "\<forall>c\<in>set q. P c" by auto
    then have "r \<in> set (re_lazy_star P t)" unfolding re_lazy_star_iff by blast
    with Cons \<open>P a\<close> show "r \<in> set (re_lazy_plus P s)" by (simp add: re_lazy_plus_def)
  qed
qed

lemma re_chr_iff: "r \<in> set (re_chr c s) \<longleftrightarrow> s = c # r"
  by (cases s) (auto simp: re_chr_def)

lemma re_lit_ci_iff:
  "r \<in> set (re_lit_ci p s) \<longleftrightarrow> (\<exists>l. s = l @ r \<and> map canon l = map canon p)"
proof (induction p s rule: re_lit_ci.induct)
  case (1 s)
  then show ?case by auto
next
  case (2 p ps)
  then show ?case by auto
next
  case (3 p ps c cs)
  show ?case
  proof
    assume "r \<in> set (re_lit_ci (p # ps) (c # cs))"
    then have c: "canon c = canon p" and "r \<in> set (re_lit_ci ps cs)" by (auto split: if_splits)
    with 3 obtain l where "cs = l @ r" "map canon l = map canon ps" by blast
    with c show "\<exists>l. c # cs = l @ r \<and> map canon l = map canon (p # ps)"
      by (intro exI[of _ "c # l"]) simp
  next
    assume "\<exists>l. c # cs = l @ r \<and> map canon l = map canon (p # ps)"
    then obtain l where l: "c # cs = l @ r" "map canon l = map canon (p # ps)" by blast
    then obtain b q where "l = b # q" by (cases l) auto
    with l have "canon c = canon p" "cs = q @ r" "map canon q = map canon ps" by auto
    with 3 show "r \<in> set (re_lit_ci (p # ps) (c # cs))" by auto
  qed
qed

lemma re_search_iff: "re_search m t \<noteq> None \<longleftrightarrow> (\<exists>pre s. t = pre @ s \<and> m s \<noteq> None)"
proof (induction t)
  case Nil
  then show ?case by simp
next
  case (Cons a t)
  show ?case
  proof (cases "m (a # t)")
    case (Some x)
    then have "\<exists>pre s. a # t = pre @ s \<and> m s \<noteq> None" by (intro exI[of _ "[]"] exI[of _ "a # t"]) simp
    with Some show ?thesis by simp
  next
    case None
    have "(\<exists>pre s. a # t = pre @ s \<and> m s \<noteq> None) \<longleftrightarrow> (\<exists>pre s. t = pre @ s \<and> m s \<noteq> None)"
    proof
      assume "\<exists>pre s. a # t = pre @ s \<and> m s \<noteq> None"
      then obtain pre s where ps: "a # t = pre @ s" "m s \<noteq> None" by blast
      with None obtain q where "pre = a # q" by (cases pre) auto
      with ps show "\<exists>pre s. t = pre @ s \<and> m s \<noteq> None" by auto
    next
      assume "\<exists>pre s. t = pre @ s \<and> m s \<noteq> None"
      then obtain pre s where "t = pre @ s" "m s \<noteq> None" by blast
      then show "\<exists>pre s. a # t = pre @ s \<and> m s \<noteq> None" by (intro exI[of _ "a # pre"] exI[of _ s]) simp
    qed
    with None Cons show ?thesis by simp
  qed
qed

section \<open>Name cleaning\<close>

lemma ws_not_digit: "is_ws c \<Longrightarrow> \<not> is_digit c"
  by (auto simp: is_ws_def is_digit_def)

lemma allDigits_iff: "allDigits v \<longleftrightarrow> v \<noteq> [] \<and> (\<forall>c\<in>set v. is_digit c)"
proof -
  have "allDigits v \<longleftrightarrow> [] \<in> set (re_plus is_digit v)"
    unfolding allDigits_def first_in_set by auto
  then show ?thesis unfolding re_plus_iff by auto
qed

text \<open>The only way to split a string into digits, white space and a rest that starts
  with something else.\<close>

lemma index_split_unique:
  assumes "v = ds @ ws @ rest" "\<forall>c\<in>set ds. is_digit c" "ws \<noteq> []" "\<forall>c\<in>set ws. is_ws c"
    "rest \<noteq> []" "\<not> is_ws (hd rest)"
  shows "rest = dropWhile is_ws (dropWhile is_digit v)"
proof -
  have "\<not> is_digit (hd (ws @ rest))" using assms(3,4) by (cases ws) (auto dest: ws_not_digit)
  then have "dropWhile is_digit (ws @ rest) = ws @ rest" using assms(3) by (cases ws) auto
  then have "dropWhile is_digit v = ws @ rest"
    using assms(1,2) by (simp add: dropWhile_append2)
  moreover have "dropWhile is_ws rest = rest" using assms(5,6) by (cases rest) auto
  ultimately show ?thesis using assms(4) by (simp add: dropWhile_append2)
qed

lemma stripIndex_set:
  "set [s2. s1 \<leftarrow> re_plus is_digit v, s2 \<leftarrow> re_plus is_ws s1, s2 \<noteq> [] \<and> \<not> is_ws (hd s2)]
     = {rest. \<exists>ds ws. indexSplit v ds ws rest}"
proof (intro set_eqI iffI)
  fix x
  assume "x \<in> set [s2. s1 \<leftarrow> re_plus is_digit v, s2 \<leftarrow> re_plus is_ws s1, s2 \<noteq> [] \<and> \<not> is_ws (hd s2)]"
  then obtain s1 where "s1 \<in> set (re_plus is_digit v)" "x \<in> set (re_plus is_ws s1)"
    "x \<noteq> []" "\<not> is_ws (hd x)" by (auto split: if_splits)
  then obtain p q where "p \<noteq> []" "v = p @ s1" "\<forall>c\<in>set p. is_digit c"
    "q \<noteq> []" "s1 = q @ x" "\<forall>c\<in>set q. is_ws c"
    unfolding re_plus_iff by blast
  with \<open>x \<noteq> []\<close> \<open>\<not> is_ws (hd x)\<close> have "indexSplit v p q x"
    by (simp add: indexSplit_def list_all_iff)
  then show "x \<in> {rest. \<exists>ds ws. indexSplit v ds ws rest}" by blast
next
  fix x
  assume "x \<in> {rest. \<exists>ds ws. indexSplit v ds ws rest}"
  then obtain ds ws where a: "indexSplit v ds ws x" by blast
  then have "ws @ x \<in> set (re_plus is_digit v)"
    unfolding re_plus_iff indexSplit_def list_all_iff by blast
  moreover from a have "x \<in> set (re_plus is_ws (ws @ x))"
    unfolding re_plus_iff indexSplit_def list_all_iff by blast
  moreover from a have "x \<noteq> []" "\<not> is_ws (hd x)" by (auto simp: indexSplit_def)
  ultimately show "x \<in> set [s2. s1 \<leftarrow> re_plus is_digit v, s2 \<leftarrow> re_plus is_ws s1, s2 \<noteq> [] \<and> \<not> is_ws (hd s2)]"
    by auto
qed

lemma stripIndex_split: "indexSplit v ds ws rest \<Longrightarrow> stripIndex v = rest"
proof -
  assume a: "indexSplit v ds ws rest"
  let ?xs = "[s2. s1 \<leftarrow> re_plus is_digit v, s2 \<leftarrow> re_plus is_ws s1, s2 \<noteq> [] \<and> \<not> is_ws (hd s2)]"
  from a have "rest \<in> set ?xs" unfolding stripIndex_set by blast
  then obtain x where x: "first ?xs = Some x" by (cases ?xs) (auto simp: first_def)
  then have "x \<in> set ?xs" by (cases ?xs) (auto simp: first_def)
  then obtain ds' ws' where "indexSplit v ds' ws' x" unfolding stripIndex_set by blast
  then have "x = dropWhile is_ws (dropWhile is_digit v)"
    unfolding indexSplit_def list_all_iff by (intro index_split_unique) auto
  moreover from a have "rest = dropWhile is_ws (dropWhile is_digit v)"
    unfolding indexSplit_def list_all_iff by (intro index_split_unique) auto
  moreover have "stripIndex v = (case first ?xs of Some rest \<Rightarrow> rest | None \<Rightarrow> v)"
    by (simp only: stripIndex_def)
  ultimately show ?thesis using x by simp
qed

lemma stripIndex_no_split: "\<not> (\<exists>ds ws rest. indexSplit v ds ws rest) \<Longrightarrow> stripIndex v = v"
proof -
  assume a: "\<not> (\<exists>ds ws rest. indexSplit v ds ws rest)"
  let ?xs = "[s2. s1 \<leftarrow> re_plus is_digit v, s2 \<leftarrow> re_plus is_ws s1, s2 \<noteq> [] \<and> \<not> is_ws (hd s2)]"
  from a have "set ?xs = {}" unfolding stripIndex_set by blast
  then have e: "?xs = []" by (simp only: set_empty)
  have "stripIndex v = (case first ?xs of Some rest \<Rightarrow> rest | None \<Rightarrow> v)"
    by (simp only: stripIndex_def)
  also have "\<dots> = v" by (simp only: e) (simp add: first_def)
  finally show ?thesis .
qed

lemma normalized_ends: "normalized v \<Longrightarrow> v = [] \<or> (\<not> is_ws (hd v) \<and> \<not> is_ws (last v))"
  by (auto simp: normalized_def)

lemma cleanName_split:
  assumes "indexSplit (norm s) ds ws rest"
  shows "cleanName s = rest"
proof -
  let ?v = "norm s"
  from assms have v: "?v = ds @ ws @ rest" and r: "rest \<noteq> []" "\<not> is_ws (hd rest)"
    and w: "ws \<noteq> []" "\<forall>c\<in>set ws. is_ws c"
    by (auto simp: indexSplit_def list_all_iff)
  from w obtain c where "c \<in> set ?v" "is_ws c" using v by (cases ws) auto
  then have "\<not> allDigits ?v" unfolding allDigits_iff by (auto dest: ws_not_digit)
  moreover have "last ?v = last rest" using v r by simp
  then have "\<not> is_ws (last rest)"
    using normalized_ends[OF normalized_norm[of s]] v r by auto
  then have "trim rest = rest" using r by (intro trim_id) simp
  ultimately show ?thesis using stripIndex_split[OF assms] by (simp add: cleanName_def Let_def)
qed

lemma cleanName_no_split:
  assumes "\<not> (\<exists>ds ws rest. indexSplit (norm s) ds ws rest)"
  shows "cleanName s = norm s"
proof -
  have "trim (norm s) = norm s"
    using normalized_ends[OF normalized_norm[of s]] by (intro trim_id) simp
  then show ?thesis using stripIndex_no_split[OF assms] by (simp add: cleanName_def Let_def)
qed




subsection \<open>The earlier copy\<close>

text \<open>
  The name cleaning of line 100 removes a leading run of digits whatever follows it, and
  the white space after it.
\<close>

lemma stripDigits_eq:
  "stripDigits v =
     (if v \<noteq> [] \<and> is_digit (hd v) then dropWhile is_ws (dropWhile is_digit v) else v)"
proof (cases v)
  case Nil
  then show ?thesis by (simp add: stripDigits_def re_plus_def first_def)
next
  case (Cons c cs)
  show ?thesis
  proof (cases "is_digit c")
    case False
    with Cons show ?thesis by (simp add: stripDigits_def re_plus_def first_def)
  next
    case True
    obtain r1 where r1: "re_star is_digit cs = dropWhile is_digit cs # r1"
      using re_star_hd[of is_digit cs] by blast
    obtain r2 where r2: "re_star is_ws (dropWhile is_digit cs) = dropWhile is_ws (dropWhile is_digit cs) # r2"
      using re_star_hd[of is_ws "dropWhile is_digit cs"] by blast
    from Cons True r1 r2 show ?thesis
      by (simp add: stripDigits_def re_plus_def first_def)
  qed
qed

lemma cleanName_copy1_digits: "list_all is_digit (norm s) \<Longrightarrow> cleanName_copy1 s = []"
proof -
  assume a: "list_all is_digit (norm s)"
  then have d: "dropWhile is_digit (norm s) = []" by (simp add: list_all_iff)
  have "stripDigits (norm s) = []"
  proof (cases "norm s")
    case Nil
    then show ?thesis by (simp add: stripDigits_eq)
  next
    case (Cons c cs)
    with a have c: "is_digit c" and e: "dropWhile is_digit cs = []" by (simp_all add: list_all_iff)
    from c have "stripDigits (c # cs) = dropWhile is_ws (dropWhile is_digit cs)"
      by (simp add: stripDigits_eq)
    also have "\<dots> = []" unfolding e by simp
    finally show ?thesis using Cons by simp
  qed
  then show ?thesis by (simp add: cleanName_copy1_def trim_def)
qed

lemma cleanName_digits: "norm s \<noteq> [] \<Longrightarrow> list_all is_digit (norm s) \<Longrightarrow> cleanName s = norm s"
  by (simp add: cleanName_def allDigits_iff list_all_iff)

text \<open>
  C3. The name cleaning of the earlier copy of the extractor (line 100) does not keep a
  name that consists only of digits, and it strips leading digits that no white space
  follows: the captures \<^verbatim>\<open>56\<close> and \<^verbatim>\<open>5\<close> are cleaned to the empty string and
  \<^verbatim>\<open>5Joe\<close> to \<^verbatim>\<open>Joe\<close>, where the name cleaning of lines 331-339 returns
  \<^verbatim>\<open>56\<close>, \<^verbatim>\<open>5\<close> and \<^verbatim>\<open>5Joe\<close>.
\<close>

theorem cleanName_copy1_numeric_name:
  "cleanName_copy1 (str ''56'') = [] \<and> cleanName (str ''56'') = str ''56''
   \<and> cleanName_copy1 (str ''5'') = [] \<and> cleanName (str ''5'') = str ''5''
   \<and> cleanName_copy1 (str ''5Joe'') = str ''Joe'' \<and> cleanName (str ''5Joe'') = str ''5Joe''"
proof -
  have n: "norm (str ''56'') = str ''56''" "norm (str ''5'') = str ''5''"
     "norm (str ''5Joe'') = str ''5Joe''"
    by (simp_all add: norm_def trim_def to_space_def str_def is_ws_def is_blank_def)
  have d: "list_all is_digit (str ''56'')" "list_all is_digit (str ''5'')"
    by (simp_all add: str_def is_digit_def)
  have e: "str ''56'' \<noteq> []" "str ''5'' \<noteq> []" by (simp_all add: str_def)
  have 1: "cleanName_copy1 (str ''56'') = []" "cleanName_copy1 (str ''5'') = []"
    by (rule cleanName_copy1_digits, simp add: n d)+
  have 2: "cleanName (str ''56'') = str ''56''" "cleanName (str ''5'') = str ''5''"
    using cleanName_digits[of "str ''56''"] cleanName_digits[of "str ''5''"] n d e by simp_all
  have 3: "cleanName_copy1 (str ''5Joe'') = str ''Joe''"
    by (simp add: cleanName_copy1_def n stripDigits_eq trim_def) (simp add: str_def is_digit_def is_ws_def)
  have "\<not> (\<exists>ds ws rest. indexSplit (str ''5Joe'') ds ws rest)"
  proof
    assume "\<exists>ds ws rest. indexSplit (str ''5Joe'') ds ws rest"
    then obtain ds ws rest where i: "indexSplit (str ''5Joe'') ds ws rest" by blast
    then have "\<exists>c \<in> set (str ''5Joe''). is_ws c"
      unfolding indexSplit_def by (cases ws) (auto simp: list_all_iff)
    then show False by (simp add: str_def is_ws_def)
  qed
  then have 4: "cleanName (str ''5Joe'') = str ''5Joe''"
    using cleanName_no_split[of "str ''5Joe''"] n by simp
  from 1 2 3 4 show ?thesis by simp
qed

section \<open>Headings and the structure of the extraction\<close>

declare headingExec.simps [simp del]

declare lineExec.simps [simp del]

lemma headingAt_sets:
  "headingAt s \<noteq> None \<longleftrightarrow>
     (\<exists>s1 s2. s1 \<in> set (re_lit_ci (str ''Result of Round #'') s) \<and> s2 \<in> set (re_plus is_digit s1))"
  unfolding headingAt_def first_in_set by auto

lemma headingAt_iff:
  "headingAt s \<noteq> None \<longleftrightarrow>
     (\<exists>lit ds post. s = lit @ ds @ post \<and> map canon lit = map canon (str ''Result of Round #'')
        \<and> ds \<noteq> [] \<and> list_all is_digit ds)"
proof
  assume "headingAt s \<noteq> None"
  then obtain s1 s2 where "s1 \<in> set (re_lit_ci (str ''Result of Round #'') s)"
    "s2 \<in> set (re_plus is_digit s1)" unfolding headingAt_sets by blast
  then obtain lit ds where "s = lit @ s1" "map canon lit = map canon (str ''Result of Round #'')"
    "ds \<noteq> []" "s1 = ds @ s2" "\<forall>c\<in>set ds. is_digit c"
    unfolding re_lit_ci_iff re_plus_iff by blast
  then show "\<exists>lit ds post. s = lit @ ds @ post \<and> map canon lit = map canon (str ''Result of Round #'')
        \<and> ds \<noteq> [] \<and> list_all is_digit ds"
    by (intro exI[of _ lit] exI[of _ ds] exI[of _ s2]) (simp add: list_all_iff)
next
  assume "\<exists>lit ds post. s = lit @ ds @ post \<and> map canon lit = map canon (str ''Result of Round #'')
        \<and> ds \<noteq> [] \<and> list_all is_digit ds"
  then obtain lit ds post where a: "s = lit @ ds @ post"
    "map canon lit = map canon (str ''Result of Round #'')" "ds \<noteq> []" "list_all is_digit ds"
    by blast
  then have "ds @ post \<in> set (re_lit_ci (str ''Result of Round #'') s)"
    unfolding re_lit_ci_iff by blast
  moreover from a have "post \<in> set (re_plus is_digit (ds @ post))"
    unfolding re_plus_iff list_all_iff by blast
  ultimately show "headingAt s \<noteq> None" unfolding headingAt_sets by blast
qed

lemma headingTest_iff: "headingTest t \<longleftrightarrow> headingOccurs t"
proof -
  have "headingTest t \<longleftrightarrow> (\<exists>pre s. t = pre @ s \<and> headingAt s \<noteq> None)"
    unfolding headingTest_def headingMatch_def by (rule re_search_iff)
  also have "\<dots> \<longleftrightarrow> headingOccurs t"
    unfolding headingAt_iff headingOccurs_def by blast
  finally show ?thesis .
qed

lemma headingReAt_iff: "headingReAt s \<noteq> None \<longleftrightarrow> headingAt s \<noteq> None"
proof -
  have "headingReAt s \<noteq> None \<longleftrightarrow>
     (\<exists>s1 s2. s1 \<in> set (re_lit_ci (str ''Result of Round #'') s) \<and> s2 \<in> set (re_plus is_digit s1))"
    unfolding headingReAt_def first_in_set by auto
  then show ?thesis unfolding headingAt_sets .
qed

lemma headingExec_nonempty: "headingReAt s \<noteq> None \<Longrightarrow> headingExec i (pre @ s) \<noteq> []"
proof (induction pre arbitrary: i)
  case Nil
  then show ?case by (subst headingExec.simps) auto
next
  case (Cons a pre)
  show ?case
  proof (cases "headingReAt (a # pre @ s)")
    case None
    with Cons show ?thesis by (subst headingExec.simps) simp
  next
    case (Some x)
    then show ?thesis by (subst headingExec.simps) (auto split: prod.splits)
  qed
qed

lemma headingExec_iff: "headingExec i t \<noteq> [] \<longleftrightarrow> headingTest t"
proof
  assume "headingTest t"
  then obtain pre s where "t = pre @ s" "headingAt s \<noteq> None"
    unfolding headingTest_def headingMatch_def re_search_iff by blast
  then show "headingExec i t \<noteq> []" using headingExec_nonempty[of s i pre] headingReAt_iff by simp
next
  assume a: "headingExec i t \<noteq> []"
  have "\<forall>i. headingExec i t \<noteq> [] \<longrightarrow> (\<exists>pre s. t = pre @ s \<and> headingReAt s \<noteq> None)"
  proof (induction t)
    case Nil
    show ?case
    proof (intro allI impI)
      fix i assume "headingExec i [] \<noteq> []"
      then have "headingReAt [] \<noteq> None" by (subst (asm) headingExec.simps) (auto split: option.splits)
      then show "\<exists>pre s. [] = pre @ s \<and> headingReAt s \<noteq> None" by simp
    qed
  next
    case (Cons a t)
    show ?case
    proof (intro allI impI)
      fix i assume ne: "headingExec i (a # t) \<noteq> []"
      show "\<exists>pre s. a # t = pre @ s \<and> headingReAt s \<noteq> None"
      proof (cases "headingReAt (a # t)")
        case None
        with ne have "headingExec (Suc i) t \<noteq> []" by (subst (asm) headingExec.simps) simp
        with Cons obtain pre s where "t = pre @ s" "headingReAt s \<noteq> None" by blast
        then show ?thesis by (intro exI[of _ "a # pre"] exI[of _ s]) simp
      next
        case (Some x)
        then show ?thesis by (intro exI[of _ "[]"] exI[of _ "a # t"]) simp
      qed
    qed
  qed
  with a obtain pre s where "t = pre @ s" "headingReAt s \<noteq> None" by blast
  then show "headingTest t"
    unfolding headingTest_def headingMatch_def re_search_iff headingReAt_iff by blast
qed

lemma names_textRounds:
  "map names (textRounds t hs) = filter (\<lambda>ns. ns \<noteq> []) (map (lineExec True) (textChunks t hs))"
  by (induction t hs rule: textRounds.induct) (auto simp: Let_def)

lemma names_markupRounds:
  "map names (markupRounds i hn) =
     filter (\<lambda>ns. ns \<noteq> []) (map (\<lambda>(el, sibs). extractNamesFromChunk (norm (collectChunk sibs []))) hn)"
  by (induction i hn rule: markupRounds.induct) (auto simp: Let_def)

lemma names_rawRounds: "map names (rawRounds doc) = filter (\<lambda>ns. ns \<noteq> []) (chunkNames doc)"
  by (simp add: rawRounds_def chunkNames_def names_textRounds names_markupRounds)

lemma parse_cases:
  "parseRandomOrgVerify doc =
     (if headingNodes doc = [] \<and> \<not> headingTest (bodyText doc) then Inl NoRoundsFound
      else if rawRounds doc = [] then Inl NoNamesParsed
      else Inr (sortRounds (rawRounds doc)))"
proof (cases "headingNodes doc = []")
  case True
  show ?thesis
  proof (cases "headingTest (bodyText doc)")
    case t: True
    then have "headingExec 0 (bodyText doc) \<noteq> []" by (simp add: headingExec_iff)
    with True t show ?thesis
      by (simp add: parseRandomOrgVerify_def parseFromTextFallback_def rawRounds_def Let_def)
  next
    case False
    with True show ?thesis by (simp add: parseRandomOrgVerify_def)
  qed
next
  case False
  then show ?thesis by (simp add: parseRandomOrgVerify_def rawRounds_def Let_def)
qed


lemma rawRounds_empty_iff: "rawRounds doc = [] \<longleftrightarrow> (\<forall>ns\<in>set (chunkNames doc). ns = [])"
proof -
  have "rawRounds doc = [] \<longleftrightarrow> map names (rawRounds doc) = []" by simp
  also have "\<dots> \<longleftrightarrow> (\<forall>ns\<in>set (chunkNames doc). ns = [])"
    unfolding names_rawRounds by (auto simp: filter_empty_conv)
  finally show ?thesis .
qed

section \<open>The names of markup mode\<close>

lemma in_dropWhile: "c \<in> set s \<Longrightarrow> \<not> P c \<Longrightarrow> c \<in> set (dropWhile P s)"
  by (induction s) auto

lemma collapse_keeps: "c \<in> set s \<Longrightarrow> \<not> is_blank c \<Longrightarrow> c \<in> set (collapse s)"
  by (induction s rule: collapse.induct) (auto dest: in_dropWhile)

lemma trim_keeps: "c \<in> set s \<Longrightarrow> \<not> is_ws c \<Longrightarrow> c \<in> set (trim s)"
proof -
  assume a: "c \<in> set s" "\<not> is_ws c"
  then have "c \<in> set (rev (dropWhile is_ws s))" by (simp add: in_dropWhile)
  then have "c \<in> set (dropWhile is_ws (rev (dropWhile is_ws s)))" using a(2) by (rule in_dropWhile)
  then show ?thesis by (simp add: trim_def)
qed

lemma norm_keeps: "c \<in> set s \<Longrightarrow> \<not> is_ws c \<Longrightarrow> c \<in> set (norm s)"
proof -
  assume a: "c \<in> set s" "\<not> is_ws c"
  then have c: "c \<noteq> 13" "c \<noteq> 160" "c \<noteq> 8239" "c \<noteq> 8199" "\<not> is_blank c"
    by (auto simp: is_ws_def is_blank_def)
  let ?b = "to_space 8199 (to_space 8239 (to_space 160 (filter (\<lambda>c. c \<noteq> 13) s)))"
  have "c \<in> set ?b" using a(1) c by (auto simp: to_space_def)
  then have "c \<in> set (collapse ?b)" using c(5) by (rule collapse_keeps)
  then show ?thesis unfolding norm_def using a(2) by (rule trim_keeps)
qed

lemma norm_nonempty: "s \<noteq> [] \<Longrightarrow> \<not> is_ws (hd s) \<Longrightarrow> norm s \<noteq> []"
  using norm_keeps[of "hd s" s] by auto

lemma normalized_suffix:
  assumes "normalized (p @ r)" "r \<noteq> []" "\<not> is_ws (hd r)"
  shows "normalized r"
proof -
  have "squeezed (drop (length p) (p @ r))" using assms(1) unfolding normalized_def
    by (intro squeezed_drop) simp
  then have "squeezed r" by simp
  moreover have "last r = last (p @ r)" using assms(2) by simp
  ultimately show ?thesis using assms unfolding normalized_def by auto
qed

lemma normalized_cleanName: "cleanName s \<noteq> [] \<Longrightarrow> normalized (cleanName s)"
proof (cases "\<exists>ds ws rest. indexSplit (norm s) ds ws rest")
  case True
  then obtain ds ws rest where a: "indexSplit (norm s) ds ws rest" by blast
  then have "cleanName s = rest" by (rule cleanName_split)
  moreover from a have "normalized ((ds @ ws) @ rest)" "rest \<noteq> []" "\<not> is_ws (hd rest)"
    using normalized_norm[of s] by (auto simp: indexSplit_def)
  then have "normalized rest" by (rule normalized_suffix)
  ultimately show ?thesis by simp
next
  case False
  then have "cleanName s = norm s" by (rule cleanName_no_split)
  then show ?thesis by (simp add: normalized_norm)
qed

lemma lineNames_names: "n \<in> set (lineNames line) \<Longrightarrow> n \<noteq> [] \<and> normalized n"
  by (auto simp: lineNames_def oneNumNames_def Let_def normalized_cleanName
      split: option.splits if_splits)

lemma extractNamesFromChunk_names:
  "n \<in> set (extractNamesFromChunk chunk) \<Longrightarrow> n \<noteq> [] \<and> normalized n"
  by (auto simp: extractNamesFromChunk_def dest: lineNames_names split: if_splits)

section \<open>The names of text mode\<close>

lemma lt_is_ws: "is_lt c \<Longrightarrow> is_ws c"
  by (auto simp: is_lt_def is_ws_def)

lemma first_append: "first (xs @ ys) = (if xs = [] then first ys else first xs)"
  by (cases xs) (auto simp: first_def)

lemma first_concat_map:
  "first (concat (map f xs)) = Some y \<Longrightarrow> \<exists>x\<in>set xs. first (f x) = Some y"
proof (induction xs)
  case Nil
  then show ?case by (simp add: first_def)
next
  case (Cons a xs)
  show ?case
  proof (cases "f a = []")
    case True
    with Cons show ?thesis by simp
  next
    case False
    with Cons.prems have "first (f a) = Some y" by (simp add: first_append)
    then show ?thesis by simp
  qed
qed

lemma numDot_suffix: "r \<in> set (numDot s) \<Longrightarrow> suffix r s"
  unfolding numDot_def
  by (auto dest!: re_star_suffix re_plus_suffix re_chr_suffix intro: suffix_order.trans)

lemma capTail_capAfter: "capTail ml s = concat (map (capAfter ml) (re_star is_ws s))"
  by (simp add: capTail_def capAfter_def[abs_def])

lemma capAfter_cap:
  assumes "(cap, r) \<in> set (capAfter ml s1)"
  shows "cap \<noteq> [] \<and> hd cap = hd s1 \<and> suffix r s1 \<and> (\<exists>k. cap = take k s1)"
proof -
  from assms obtain s2 where s2: "s2 \<in> set (re_lazy_plus (\<lambda>c. \<not> is_lt c) s1)"
    and r: "r \<in> set (re_star is_ws s2)" and cap: "cap = take (length s1 - length s2) s1"
    unfolding capAfter_def by (auto split: if_splits)
  from s2 have l: "length s2 < length s1" by (rule re_lazy_plus_len)
  then have "cap \<noteq> []" using cap by auto
  moreover have "hd cap = hd s1" using cap l by (cases s1) (auto simp: take_Cons' )
  moreover have "suffix r s1"
    using re_star_suffix[OF r] re_lazy_plus_suffix[OF s2] by (rule suffix_order.trans)
  ultimately show ?thesis using cap by blast
qed

lemma capAfter_multiline_nonempty:
  assumes "s1 \<noteq> []" "\<not> is_ws (hd s1)"
  shows "capAfter True s1 \<noteq> []"
proof -
  obtain c cs where s1: "s1 = c # cs" using assms(1) by (cases s1) auto
  with assms(2) have c: "\<not> is_lt c" by (auto dest: lt_is_ws)
  let ?s2 = "dropWhile (\<lambda>c. \<not> is_lt c) cs"
  have "s1 = (c # takeWhile (\<lambda>c. \<not> is_lt c) cs) @ ?s2" using s1 by simp
  moreover have "\<forall>x\<in>set (c # takeWhile (\<lambda>c. \<not> is_lt c) cs). \<not> is_lt x"
    using c by (auto dest: set_takeWhileD)
  ultimately have 1: "?s2 \<in> set (re_lazy_plus (\<lambda>c. \<not> is_lt c) s1)"
    unfolding re_lazy_plus_iff by blast
  have 2: "?s2 \<in> set (re_star is_ws ?s2)" unfolding re_star_iff by (intro exI[of _ "[]"]) simp
  have 3: "re_eol True ?s2"
    using hd_dropWhile[of "\<lambda>c. \<not> is_lt c" cs] by (auto simp: re_eol_def)
  from 1 2 3 have "(take (length s1 - length ?s2) s1, ?s2) \<in> set (capAfter True s1)"
    unfolding capAfter_def by auto
  then show ?thesis by auto
qed

lemma capTail_first:
  assumes "b = [] \<or> \<not> is_ws (last b)" and "first (capTail True b) = Some (cap, r)"
  shows "cap \<noteq> [] \<and> \<not> is_ws (hd cap) \<and> suffix r b"
proof -
  let ?s1 = "dropWhile is_ws b"
  obtain rest where rs: "re_star is_ws b = ?s1 # rest" using re_star_hd by blast
  then have ct: "capTail True b = capAfter True ?s1 @ concat (map (capAfter True) rest)"
    by (simp add: capTail_capAfter)
  have ne: "?s1 \<noteq> []"
  proof
    assume e: "?s1 = []"
    then have all: "\<forall>c\<in>set b. is_ws c" by (simp add: dropWhile_eq_Nil_conv)
    have "b = []"
    proof (rule ccontr)
      assume "b \<noteq> []"
      then have "last b \<in> set b" by simp
      with all assms(1) \<open>b \<noteq> []\<close> show False by auto
    qed
    then have "capTail True b = []" by (simp add: capTail_def re_lazy_plus_def)
    with assms(2) show False by (simp add: first_def)
  qed
  then have h: "\<not> is_ws (hd ?s1)" by (rule hd_dropWhile)
  from ne h have "capAfter True ?s1 \<noteq> []" by (rule capAfter_multiline_nonempty)
  with ct assms(2) have "first (capAfter True ?s1) = Some (cap, r)" by (simp add: first_append)
  then have "(cap, r) \<in> set (capAfter True ?s1)" by (rule first_SomeD)
  then have "cap \<noteq> []" "hd cap = hd ?s1" "suffix r ?s1" using capAfter_cap by blast+
  moreover have "suffix ?s1 b" by (rule suffix_dropWhile)
  ultimately show ?thesis using h by (auto intro: suffix_order.trans)
qed

lemma suffix_last_ws: "b = [] \<or> \<not> is_ws (last b) \<Longrightarrow> suffix r b \<Longrightarrow> r = [] \<or> \<not> is_ws (last r)"
  by (auto simp: suffix_def)

lemma lineReAt_capture:
  assumes "s = [] \<or> \<not> is_ws (last s)" and "lineReAt s = Some (cap, r)"
  shows "cap \<noteq> [] \<and> \<not> is_ws (hd cap) \<and> suffix r s"
proof -
  have "lineReAt s = first (concat (map (\<lambda>a. concat (map (capTail True) (numDot a))) (numDot s)))"
    by (simp add: lineReAt_def case_prod_unfold)
  with assms(2) have "first (concat (map (\<lambda>a. concat (map (capTail True) (numDot a))) (numDot s))) = Some (cap, r)"
    by simp
  from first_concat_map[OF this] obtain a where a: "a \<in> set (numDot s)"
    and "first (concat (map (capTail True) (numDot a))) = Some (cap, r)"
    by blast
  from first_concat_map[OF this(2)] obtain b where b: "b \<in> set (numDot a)"
    and f: "first (capTail True b) = Some (cap, r)"
    by blast
  have sb: "suffix b s" using numDot_suffix[OF b] numDot_suffix[OF a] by (rule suffix_order.trans)
  with assms(1) have "b = [] \<or> \<not> is_ws (last b)" by (rule suffix_last_ws)
  from capTail_first[OF this f] sb show ?thesis by (auto intro: suffix_order.trans)
qed

lemma lineExec_names:
  "s = [] \<or> \<not> is_ws (last s) \<Longrightarrow> n \<in> set (lineExec bol s) \<Longrightarrow> n \<noteq> [] \<and> normalized n"
proof (induction bol s rule: lineExec.induct)
  case (1 bol s)
  show ?case
  proof (cases "if bol then lineReAt s else None")
    case None
    show ?thesis
    proof (cases s)
      case Nil
      with None "1.prems" show ?thesis by (subst (asm) lineExec.simps) simp
    next
      case (Cons c cs)
      with None "1.prems"(2) have n: "n \<in> set (lineExec (is_lt c) cs)"
        by (subst (asm) lineExec.simps) simp
      have "cs = [] \<or> \<not> is_ws (last cs)" using "1.prems"(1) Cons by (auto split: if_splits)
      with "1.IH"(1)[OF None Cons] n show ?thesis by simp
    qed
  next
    case (Some x)
    obtain cap r where x: "x = (cap, r)" by (cases x)
    with Some have l: "lineReAt s = Some (cap, r)" by (auto split: if_splits)
    from lineReAt_capture[OF "1.prems"(1) l]
    have cap: "cap \<noteq> []" "\<not> is_ws (hd cap)" and r: "suffix r s" by auto
    from "1.prems"(2) Some x cap have "n = norm cap \<or> n \<in> set (lineExec (is_lt (s ! (length s - length r - 1))) r)"
      by (subst (asm) lineExec.simps) auto
    then show ?thesis
    proof
      assume "n = norm cap"
      with cap show ?thesis by (simp add: norm_nonempty normalized_norm)
    next
      assume n: "n \<in> set (lineExec (is_lt (s ! (length s - length r - 1))) r)"
      have "r = [] \<or> \<not> is_ws (last r)" using "1.prems"(1) r by (rule suffix_last_ws)
      with "1.IH"(2)[OF Some, of cap r] x n show ?thesis by simp
    qed
  qed
qed

lemma textChunks_normalized: "c \<in> set (textChunks t hs) \<Longrightarrow> c = [] \<or> \<not> is_ws (last c)"
proof (induction t hs rule: textChunks.induct)
  case (1 t)
  then show ?case by simp
next
  case (2 t rnd start hs)
  show ?case
  proof (cases "c \<in> set (textChunks t hs)")
    case True
    with 2 show ?thesis by simp
  next
    case False
    with 2 obtain x where "c = norm x" by auto
    then show ?thesis using normalized_ends[OF normalized_norm[of x]] by auto
  qed
qed

lemma chunkNames_names:
  assumes "ns \<in> set (chunkNames doc)" "n \<in> set ns"
  shows "n \<noteq> [] \<and> normalized n"
proof (cases "headingNodes doc = []")
  case True
  with assms(1) obtain c where "c \<in> set (textChunks (bodyText doc) (headingExec 0 (bodyText doc)))"
    "ns = lineExec True c" by (auto simp: chunkNames_def)
  with assms(2) show ?thesis using lineExec_names textChunks_normalized by blast
next
  case False
  with assms(1) obtain chunk where "ns = extractNamesFromChunk chunk"
    by (auto simp: chunkNames_def)
  with assms(2) show ?thesis using extractNamesFromChunk_names by blast
qed

section \<open>The model on the example pages\<close>

lemmas regex_eval =
  first_def re_plus_def re_lazy_plus_def re_chr_def re_eol_def canon_def str_def
  is_ws_def is_digit_def is_lt_def is_blank_def
  headingAt_def headingMatch_def headingTest_def containsCI_def capTail_def numDot_def
  reTwoNums_def reOneNum_def lineReAt_def headingReAt_def

lemmas norm_eval = norm_def trim_def to_space_def

lemmas extract_eval =
  allDigits_def stripIndex_def cleanName_def oneNumNames_def lineNames_def
  extractNamesFromChunk_def Number_def roundDouble_def numeral_eq_enat one_enat_def
  slice_def sortRounds_def parseFromTextFallback_def
  headingNodes_def bodyText_def rawRounds_def parseRandomOrgVerify_def chunkNames_def
  headingExec.simps lineExec.simps Let_def

lemma rawRounds_doc32:
  "rawRounds doc32 = [\<lparr>round_no = 3, names = [str ''Alice'']\<rparr>, \<lparr>round_no = 2, names = [str ''Bob'']\<rparr>]"
  by (simp add: doc32_def regex_eval norm_eval extract_eval)

lemma parse_doc32:
  "parseRandomOrgVerify doc32 =
     Inr [\<lparr>round_no = 2, names = [str ''Bob'']\<rparr>, \<lparr>round_no = 3, names = [str ''Alice'']\<rparr>]"
  unfolding parse_cases rawRounds_doc32
  by (simp add: doc32_def sortRounds_def headingNodes_def regex_eval norm_eval)


lemma parse_docText:
  "parseRandomOrgVerify docText = Inr [\<lparr>round_no = 1, names = [str ''Carol Ann'']\<rparr>]"
  by (simp add: docText_def regex_eval norm_eval extract_eval)

section \<open>The round of the spot counts\<close>

lemma find_via_filter: "find P xs = (case filter P xs of [] \<Rightarrow> None | x # _ \<Rightarrow> Some x)"
  by (induction xs) auto

lemma find_sortRounds:
  "find (\<lambda>x. round_no x = k) (sortRounds rs) = find (\<lambda>x. round_no x = k) rs"
  unfolding sortRounds_def find_via_filter by (simp add: sort_key_stable)

lemma sorted_hd_min: "sorted (map f xs) \<Longrightarrow> x \<in> set xs \<Longrightarrow> f (hd xs) \<le> f x"
  by (cases xs) auto

lemma parse_InrD:
  "parseRandomOrgVerify doc = Inr rs \<Longrightarrow> rawRounds doc \<noteq> [] \<and> rs = sortRounds (rawRounds doc)"
  unfolding parse_cases by (auto split: if_splits)

lemma round1_sorted:
  assumes "raw \<noteq> []"
  shows "\<exists>r. round1 (sortRounds raw) = Some r
      \<and> find (\<lambda>x. round_no x = round_no r) raw = Some r
      \<and> (if \<exists>x\<in>set raw. round_no x = 1 then round_no r = 1
          else \<forall>x\<in>set raw. round_no r \<le> round_no x)"
proof (cases "find (\<lambda>x. round_no x = 1) (sortRounds raw)")
  case (Some r)
  then have r1: "round_no r = 1" and "r \<in> set (sortRounds raw)"
    by (auto simp: find_Some_iff)
  then have "r \<in> set raw" by (simp add: sortRounds_def)
  moreover have "find (\<lambda>x. round_no x = round_no r) raw = Some r"
    using Some r1 by (simp add: find_sortRounds)
  moreover have "round1 (sortRounds raw) = Some r" using Some by (simp add: round1_def)
  ultimately show ?thesis using r1 by auto
next
  case None
  then have no1: "\<not> (\<exists>x\<in>set raw. round_no x = 1)"
    by (auto simp: find_None_iff sortRounds_def)
  from assms have ne: "sortRounds raw \<noteq> []"
    by (metis length_0_conv length_sort sortRounds_def)
  then obtain r rest where rs: "sortRounds raw = r # rest" by (cases "sortRounds raw") auto
  with None have sel: "round1 (sortRounds raw) = Some r" by (simp add: round1_def)
  have "sorted (map round_no (sortRounds raw))" by (simp add: sortRounds_def)
  then have "\<forall>x\<in>set raw. round_no r \<le> round_no x"
    using sorted_hd_min[of round_no "sortRounds raw"] rs by (auto simp: sortRounds_def)
  moreover have "find (\<lambda>x. round_no x = round_no r) (sortRounds raw) = Some r"
    using rs by simp
  then have "find (\<lambda>x. round_no x = round_no r) raw = Some r" by (simp add: find_sortRounds)
  ultimately show ?thesis using sel no1 by auto
qed

text \<open>
  C1 (as amended). For every successful extraction, the spot counts are built from exactly
  one round of the collection: a round numbered 1 if the document has one, otherwise a
  round with the lowest round number (the first round of the sorted collection, not the
  first round discovered). Among the rounds with the number of the selected round, the
  selected one is the first that the parse discovered.
\<close>

theorem spot_round_selection:
  assumes "parseRandomOrgVerify doc = Inr rs"
  shows "\<exists>r. round1 rs = Some r
      \<and> buildSpotCountsFromRound1 rs = countNames (names r) Map.empty
      \<and> find (\<lambda>x. round_no x = round_no r) (rawRounds doc) = Some r
      \<and> (if \<exists>x\<in>set (rawRounds doc). round_no x = 1 then round_no r = 1
          else \<forall>x\<in>set (rawRounds doc). round_no r \<le> round_no x)"
proof -
  from parse_InrD[OF assms] have ne: "rawRounds doc \<noteq> []" and rs: "rs = sortRounds (rawRounds doc)"
    by auto
  from round1_sorted[OF ne] obtain r where r: "round1 rs = Some r"
    "find (\<lambda>x. round_no x = round_no r) (rawRounds doc) = Some r"
    "if \<exists>x\<in>set (rawRounds doc). round_no x = 1 then round_no r = 1
          else \<forall>x\<in>set (rawRounds doc). round_no r \<le> round_no x"
    unfolding rs by blast
  from r(1) have "buildSpotCountsFromRound1 rs = countNames (names r) Map.empty"
    by (simp add: buildSpotCountsFromRound1_def)
  with r show ?thesis by blast
qed

theorem spot_round_selection_witness:
  "\<exists>r. round1 [\<lparr>round_no = 2, names = [str ''Bob'']\<rparr>, \<lparr>round_no = 3, names = [str ''Alice'']\<rparr>] = Some r
     \<and> round_no r = 2 \<and> names r = [str ''Bob'']"
proof -
  from spot_round_selection[OF parse_doc32] obtain r where
    r: "round1 [\<lparr>round_no = 2, names = [str ''Bob'']\<rparr>, \<lparr>round_no = 3, names = [str ''Alice'']\<rparr>] = Some r"
    and m: "if \<exists>x\<in>set (rawRounds doc32). round_no x = 1 then round_no r = 1
          else \<forall>x\<in>set (rawRounds doc32). round_no r \<le> round_no x"
    and f: "find (\<lambda>x. round_no x = round_no r) (rawRounds doc32) = Some r"
    by blast
  from m have "round_no r \<le> 2" by (simp add: rawRounds_doc32)
  with f have "r = \<lparr>round_no = 2, names = [str ''Bob'']\<rparr>"
    by (simp add: rawRounds_doc32 split: if_splits)
  with r show ?thesis by simp
qed

theorem spot_round_discovery_counterexample:
  "rawRounds doc32 = [\<lparr>round_no = 3, names = [str ''Alice'']\<rparr>, \<lparr>round_no = 2, names = [str ''Bob'']\<rparr>]
   \<and> parseRandomOrgVerify doc32 =
       Inr [\<lparr>round_no = 2, names = [str ''Bob'']\<rparr>, \<lparr>round_no = 3, names = [str ''Alice'']\<rparr>]
   \<and> round1 [\<lparr>round_no = 2, names = [str ''Bob'']\<rparr>, \<lparr>round_no = 3, names = [str ''Alice'']\<rparr>]
       = Some \<lparr>round_no = 2, names = [str ''Bob'']\<rparr>
   \<and> buildSpotCountsFromRound1
        [\<lparr>round_no = 2, names = [str ''Bob'']\<rparr>, \<lparr>round_no = 3, names = [str ''Alice'']\<rparr>] (str ''Alice'')
       = None
   \<and> buildSpotCountsFromRound1
        [\<lparr>round_no = 2, names = [str ''Bob'']\<rparr>, \<lparr>round_no = 3, names = [str ''Alice'']\<rparr>] (str ''Bob'')
       = Some (NumV 1)"
proof -
  have "round1 [\<lparr>round_no = 2, names = [str ''Bob'']\<rparr>, \<lparr>round_no = 3, names = [str ''Alice'']\<rparr>]
       = Some \<lparr>round_no = 2, names = [str ''Bob'']\<rparr>"
    by (simp add: round1_def)
  moreover from this have "buildSpotCountsFromRound1
        [\<lparr>round_no = 2, names = [str ''Bob'']\<rparr>, \<lparr>round_no = 3, names = [str ''Alice'']\<rparr>]
      = countNames [str ''Bob''] Map.empty"
    by (simp add: buildSpotCountsFromRound1_def)
  moreover have "norm (str ''Bob'') = str ''Bob''"
    by (simp add: norm_eval str_def is_ws_def is_blank_def)
  ultimately show ?thesis
    using rawRounds_doc32 parse_doc32
    by (simp add: getProp_def setProp_def inherited_def Let_def) (simp add: str_def)
qed

section \<open>The two failures of the extraction\<close>

lemma headingNodes_empty_iff:
  "headingNodes doc = [] \<longleftrightarrow>
     (\<forall>(el, sibs) \<in> set (elements doc). selected el \<longrightarrow> \<not> headingOccurs (norm (text_of el)))"
  by (auto simp: headingNodes_def filter_empty_conv headingTest_iff)

text \<open>
  C6. When the heading pattern (the words \<^verbatim>\<open>Result of Round #\<close> in any letter case,
  followed by a digit) occurs in the normalized text of no selected element and nowhere
  in the normalized text of the whole document, the extraction fails with
  \<open>NoRoundsFound\<close>.
\<close>

theorem no_rounds_found:
  assumes "\<forall>(el, sibs) \<in> set (elements doc). selected el \<longrightarrow> \<not> headingOccurs (norm (text_of el))"
    and "\<not> headingOccurs (bodyText doc)"
  shows "parseRandomOrgVerify doc = Inl NoRoundsFound"
proof -
  from assms(1) have "headingNodes doc = []" unfolding headingNodes_empty_iff .
  moreover from assms(2) have "\<not> headingTest (bodyText doc)" unfolding headingTest_iff .
  ultimately show ?thesis by (simp add: parse_cases)
qed

theorem no_rounds_found_witness:
  "\<not> headingOccurs (bodyText docNoHeading) \<and> parseRandomOrgVerify docNoHeading = Inl NoRoundsFound"
proof -
  have 1: "\<forall>(el, sibs) \<in> set (elements docNoHeading).
      selected el \<longrightarrow> \<not> headingOccurs (norm (text_of el))"
    unfolding headingTest_iff[symmetric]
    by (simp add: docNoHeading_def regex_eval norm_eval)
  have 2: "\<not> headingOccurs (bodyText docNoHeading)"
    unfolding headingTest_iff[symmetric]
    by (simp add: docNoHeading_def bodyText_def regex_eval norm_eval)
  from no_rounds_found[OF 1 2] 2 show ?thesis by simp
qed

text \<open>
  C5. When round headings are detected (a selected element whose text has the heading
  pattern, or, without such an element, the pattern in the text of the document) but the
  chunk of every anchor yields zero names, the extraction fails with \<open>NoNamesParsed\<close>;
  it does not return an empty collection.
\<close>

theorem no_names_parsed:
  assumes "headingNodes doc \<noteq> [] \<or> headingOccurs (bodyText doc)"
    and "\<forall>ns\<in>set (chunkNames doc). ns = []"
  shows "parseRandomOrgVerify doc = Inl NoNamesParsed"
proof -
  from assms(1) have "\<not> (headingNodes doc = [] \<and> \<not> headingTest (bodyText doc))"
    by (auto simp: headingTest_iff)
  moreover from assms(2) have "rawRounds doc = []" unfolding rawRounds_empty_iff .
  ultimately show ?thesis by (simp add: parse_cases)
qed

theorem no_names_parsed_witness:
  "chunkNames docMarkupNoNames = [[]] \<and> parseRandomOrgVerify docMarkupNoNames = Inl NoNamesParsed
   \<and> chunkNames docTextNoNames = [[]] \<and> parseRandomOrgVerify docTextNoNames = Inl NoNamesParsed"
proof -
  have m: "chunkNames docMarkupNoNames = [[]]"
    by (simp add: docMarkupNoNames_def regex_eval norm_eval extract_eval)
  have mh: "headingNodes docMarkupNoNames \<noteq> []"
    by (simp add: docMarkupNoNames_def headingNodes_def regex_eval norm_eval)
  have t: "chunkNames docTextNoNames = [[]]"
    by (simp add: docTextNoNames_def regex_eval norm_eval extract_eval)
  have th: "headingOccurs (bodyText docTextNoNames)"
    unfolding headingTest_iff[symmetric]
    by (simp add: docTextNoNames_def bodyText_def regex_eval norm_eval)
  have "parseRandomOrgVerify docMarkupNoNames = Inl NoNamesParsed"
    using mh m by (intro no_names_parsed) simp_all
  moreover have "parseRandomOrgVerify docTextNoNames = Inl NoNamesParsed"
    using th t by (intro no_names_parsed) simp_all
  ultimately show ?thesis using m t by simp
qed

section \<open>Successful extractions\<close>

lemma rawRounds_names: "r \<in> set (rawRounds doc) \<Longrightarrow> names r \<noteq> [] \<and> names r \<in> set (chunkNames doc)"
proof -
  assume "r \<in> set (rawRounds doc)"
  then have "names r \<in> set (map names (rawRounds doc))" by simp
  then show ?thesis unfolding names_rawRounds by simp
qed

lemma sortRounds_props:
  "set (sortRounds rs) = set rs" "sorted (map round_no (sortRounds rs))"
  "sortRounds rs = [] \<longleftrightarrow> rs = []"
proof -
  show "set (sortRounds rs) = set rs" "sorted (map round_no (sortRounds rs))"
    by (simp_all add: sortRounds_def)
  have "length (sortRounds rs) = length rs" by (simp add: sortRounds_def)
  then show "sortRounds rs = [] \<longleftrightarrow> rs = []" by (metis length_0_conv)
qed




text \<open>
  C10. Every name of every round of a successful extraction, in markup mode and in text
  mode, is a non-empty string and a fixed point of the normalizer: it has no carriage
  return, none of the Unicode spaces U+00A0, U+202F, U+2007, no tab, no two adjacent
  spaces, and no white space at either end.
\<close>

theorem names_normalized:
  assumes "parseRandomOrgVerify doc = Inr rs" and "r \<in> set rs" and "n \<in> set (names r)"
  shows "n \<noteq> [] \<and> norm n = n \<and> normalized n"
proof -
  from assms(1) have "rs = sortRounds (rawRounds doc)" by (auto dest: parse_InrD)
  with assms(2) have "r \<in> set (rawRounds doc)" by (simp add: sortRounds_props)
  then have "names r \<in> set (chunkNames doc)" by (simp add: rawRounds_names)
  from chunkNames_names[OF this assms(3)] show ?thesis by (simp add: norm_normalized)
qed

theorem names_normalized_witness:
  "parseRandomOrgVerify doc32 =
     Inr [\<lparr>round_no = 2, names = [str ''Bob'']\<rparr>, \<lparr>round_no = 3, names = [str ''Alice'']\<rparr>]
   \<and> str ''Bob'' \<noteq> [] \<and> norm (str ''Bob'') = str ''Bob'' \<and> normalized (str ''Bob'')
   \<and> parseRandomOrgVerify docText = Inr [\<lparr>round_no = 1, names = [str ''Carol Ann'']\<rparr>]
   \<and> str ''Carol Ann'' \<noteq> [] \<and> norm (str ''Carol Ann'') = str ''Carol Ann''
   \<and> normalized (str ''Carol Ann'')"
proof -
  have "str ''Bob'' \<noteq> [] \<and> norm (str ''Bob'') = str ''Bob'' \<and> normalized (str ''Bob'')"
    by (rule names_normalized[OF parse_doc32, of "\<lparr>round_no = 2, names = [str ''Bob'']\<rparr>"]) simp_all
  moreover have "str ''Carol Ann'' \<noteq> [] \<and> norm (str ''Carol Ann'') = str ''Carol Ann''
      \<and> normalized (str ''Carol Ann'')"
    by (rule names_normalized[OF parse_docText, of "\<lparr>round_no = 1, names = [str ''Carol Ann'']\<rparr>"]) simp_all
  ultimately show ?thesis using parse_doc32 parse_docText by simp
qed

section \<open>The line patterns on well-formed lines\<close>



















section \<open>Text mode against markup mode\<close>















end
